theory Spec2Isabelle
  imports Main
begin

section \<open>Python strings\<close>

text \<open>
  A Python \<open>str\<close> is a sequence of Unicode code points. A code point is modelled as a
  natural number and a \<open>str\<close> as a list of them, so that \<open>len\<close>, \<open>startswith\<close>,
  \<open>strip\<close> and the regular expressions of the script count what Python counts.
  String literals of the script are written as Isabelle literals and converted by
  \<open>ustr\<close>.
\<close>

type_synonym str = "nat list"

abbreviation ord :: "char \<Rightarrow> nat" where
  "ord c \<equiv> of_char c"

definition ustr :: "string \<Rightarrow> str" where
  "ustr s = map ord s"

definition startswith :: "str \<Rightarrow> str \<Rightarrow> bool" where
  "startswith s p = (take (length p) s = p)"

text \<open>
  \<open>str.strip()\<close> without argument removes leading and trailing white space, which
  for a \<open>str\<close> is the set of code points for which \<open>str.isspace\<close> holds.
\<close>

definition is_space :: "nat \<Rightarrow> bool" where
  "is_space c = ((9 \<le> c \<and> c \<le> 13) \<or> (28 \<le> c \<and> c \<le> 32) \<or> c = 133 \<or> c = 160
     \<or> c = 5760 \<or> (8192 \<le> c \<and> c \<le> 8202) \<or> c = 8232 \<or> c = 8233 \<or> c = 8239
     \<or> c = 8287 \<or> c = 12288)"

definition strip_chars :: "(nat \<Rightarrow> bool) \<Rightarrow> str \<Rightarrow> str" where
  "strip_chars P s = rev (dropWhile P (rev (dropWhile P s)))"

definition strip :: "str \<Rightarrow> str" where
  "strip s = strip_chars is_space s"

text \<open>
  \<open>str.lower()\<close>: an ASCII code point is lower-cased by the ASCII rule. The lower-case
  mapping of a code point beyond ASCII comes from the Unicode character database and may
  depend on the context (final sigma) and give several code points; it is the parameter
  \<open>lo\<close>, applied to the text before the code point, the code point and the text after.
\<close>

type_synonym unicode_lower = "str \<Rightarrow> nat \<Rightarrow> str \<Rightarrow> str"

definition ascii_lower :: "nat \<Rightarrow> nat" where
  "ascii_lower c = (if ord CHR ''A'' \<le> c \<and> c \<le> ord CHR ''Z'' then c + 32 else c)"

fun lower_from :: "unicode_lower \<Rightarrow> str \<Rightarrow> str \<Rightarrow> str" where
  "lower_from lo done [] = []"
| "lower_from lo done (c # rest) =
     (if c < 128 then [ascii_lower c] else lo done c rest)
       @ lower_from lo (done @ [c]) rest"

definition lower :: "unicode_lower \<Rightarrow> str \<Rightarrow> str" where
  "lower lo s = lower_from lo [] s"

section \<open>Name normalisation\<close>

text \<open>
  \<^verbatim>\<open>
  def clean_name(text):
      return re.sub(r'[^a-z0-9\-]+', '-', text.strip().lower()).strip('-')
  \<close>
  The character class of the pattern is negated: \<open>name_char\<close> is its complement, the
  code points \<open>a-z\<close>, \<open>0-9\<close> and the hyphen. \<open>re.sub\<close> replaces every leftmost, greedy
  (so maximal) non-empty run of code points outside the class by one hyphen. The scan
  goes left to right; \<open>in_run\<close> says that the previous code point was outside the
  class, so that the hyphen of the current run has been produced already.
\<close>

definition hyphen :: nat where
  "hyphen = ord CHR ''-''"

definition name_char :: "nat \<Rightarrow> bool" where
  "name_char c = ((ord CHR ''a'' \<le> c \<and> c \<le> ord CHR ''z'')
     \<or> (ord CHR ''0'' \<le> c \<and> c \<le> ord CHR ''9'') \<or> c = hyphen)"

fun sub_runs :: "bool \<Rightarrow> str \<Rightarrow> str" where
  "sub_runs in_run [] = []"
| "sub_runs in_run (c # cs) =
     (if name_char c then c # sub_runs False cs
      else if in_run then sub_runs True cs
      else hyphen # sub_runs True cs)"

definition re_sub :: "str \<Rightarrow> str" where
  "re_sub s = sub_runs False s"

definition clean_name :: "unicode_lower \<Rightarrow> str \<Rightarrow> str" where
  "clean_name lo text = strip_chars (\<lambda>c. c = hyphen) (re_sub (lower lo (strip text)))"


text \<open>
  The invariant of a file's base name: only \<open>a-z\<close>, \<open>0-9\<close> and hyphens, and no hyphen
  at the start or at the end.
\<close>

definition valid_name :: "str \<Rightarrow> bool" where
  "valid_name s =
     (list_all name_char s \<and> \<not> startswith s [hyphen] \<and> \<not> startswith (rev s) [hyphen])"

section \<open>Decimal integers\<close>

text \<open>
  Python's integers are unbounded. \<open>str_of_int\<close> is the decimal numeral of an integer
  and \<open>int_value\<close> the integer that a decimal numeral denotes; it is applied only to
  what the number pattern of the JSON scanner has matched: an optional minus sign and
  decimal digits. The conversion \<open>int(s)\<close> itself, which can refuse a long numeral, is
  \<open>int_of_str\<close> below.
\<close>

definition is_digit :: "nat \<Rightarrow> bool" where
  "is_digit c = (ord CHR ''0'' \<le> c \<and> c \<le> ord CHR ''9'')"

fun str_of_nat :: "nat \<Rightarrow> str" where
  "str_of_nat n =
     (if n < 10 then [ord CHR ''0'' + n]
      else str_of_nat (n div 10) @ [ord CHR ''0'' + n mod 10])"

declare str_of_nat.simps [simp del]

definition str_of_int :: "int \<Rightarrow> str" where
  "str_of_int i = (if i < 0 then ord CHR ''-'' # str_of_nat (nat (- i)) else str_of_nat (nat i))"

definition nat_of_str :: "str \<Rightarrow> nat" where
  "nat_of_str s = foldl (\<lambda>a d. 10 * a + (d - ord CHR ''0'')) 0 s"

definition int_value :: "str \<Rightarrow> int" where
  "int_value s =
     (case s of
        [] \<Rightarrow> 0
      | c # cs \<Rightarrow> if c = ord CHR ''-'' then - int (nat_of_str cs) else int (nat_of_str s))"

section \<open>JSON values\<close>

text \<open>
  What \<open>json.loads\<close> returns: \<open>None\<close>, a \<open>bool\<close>, an \<open>int\<close>, a \<open>float\<close>, a
  \<open>str\<close>, a \<open>list\<close> or a \<open>dict\<close> with \<open>str\<close> keys. A \<open>dict\<close> keeps its keys in
  insertion order, so it is an association list with distinct keys.

  Python's \<open>float\<close> is an IEEE 754 double. Its values are the type parameter \<open>'f\<close>, and
  the two library functions on them that the \<open>json\<close> module calls are parameters too:
  \<open>float(s)\<close> and \<open>float.__repr__\<close>.
\<close>

datatype 'f json =
    JNull
  | JBool bool
  | JInt int
  | JFloat 'f
  | JStr str
  | JList "'f json list"
  | JDict "(str \<times> 'f json) list"

section \<open>The platform\<close>

text \<open>
  The exceptions that can end a call in this script. \<open>OutOfFuel\<close> is no exception of
  Python: it is the value of a model function whose recursion is bounded by fuel, when
  the fuel is used up.
\<close>

datatype error =
    JSONDecodeError
  | RecursionError
  | ValueError
  | OSError
  | UnicodeEncodeError
  | HTTPError nat
  | ConnectionError
  | OutOfFuel

text \<open>
  What happens to \<open>with open(fname, "w", encoding="utf-8") as f: json.dump(parsed, f,
  indent=2)\<close> is up to the file system: the file is written; or \<open>open\<close> raises
  \<open>OSError\<close> (the name is too long, the directory is not writable) and there is no
  file; or \<open>open\<close> has created the file and a write raises \<open>OSError\<close> (the disk is
  full), which leaves a file with some other content.
\<close>

datatype write_result = Written | NotOpened | Broken str

text \<open>
  The record \<open>python\<close> collects what the script takes from the interpreter, the
  libraries and the operating system it runs on:

    \<^item> the Unicode lower-case mapping, \<open>float(s)\<close> and \<open>float.__repr__\<close>;

    \<^item> \<open>recursion_headroom\<close>: how many containers \<open>json.loads\<close> can enter inside the
      outermost one before the interpreter raises \<open>RecursionError\<close>. The scanner
      registers a recursive call for each object and each array it enters. The outermost
      container can always be entered: the call of \<open>soup.select\<close> just before, made
      from the same frame, went deeper and returned;

    \<^item> \<open>int_max_str_digits\<close>: the limit on the number of digits that \<open>int(s)\<close>
      converts (\<open>sys.get_int_max_str_digits()\<close>, 4300 unless configured); 0 stands for
      no limit, which is also the behaviour of an interpreter that has no such setting;

    \<^item> \<open>fs_write\<close>: what the file system does with a write to a path, given the
      writes of the run before it;

    \<^item> \<open>print_error\<close>: the exception that \<open>print\<close> raises for a line, if any (the
      lines of the script start with a code point that an encoding of the standard
      output may lack, which gives \<open>UnicodeEncodeError\<close>).
\<close>

record 'f python =
  unicode_lower :: unicode_lower
  float_of_str :: "str \<Rightarrow> 'f"
  float_repr :: "'f \<Rightarrow> str"
  recursion_headroom :: nat
  int_max_str_digits :: nat
  fs_write :: "(str \<times> str) list \<Rightarrow> str \<Rightarrow> str \<Rightarrow> write_result"
  print_error :: "str \<Rightarrow> error option"

text \<open>
  \<open>int(s)\<close> on a decimal numeral. The conversion counts the digits of the numeral and
  raises \<open>ValueError\<close> when there are more than the limit allows; it does not look at
  the limit for a numeral of at most 640 digits.
\<close>

definition int_of_str :: "'f python \<Rightarrow> str \<Rightarrow> error + int" where
  "int_of_str py s =
     (let digits = length (filter is_digit s) in
      if 640 < digits \<and> 0 < int_max_str_digits py \<and> int_max_str_digits py < digits
      then Inl ValueError
      else Inr (int_value s))"

section \<open>Serialisation: \<open>json.dump(parsed, f, indent=2)\<close>\<close>

text \<open>
  With \<open>indent=2\<close> and the other defaults the encoder escapes every code point outside
  printable ASCII (\<open>ensure_ascii\<close>), separates items by a comma and a line break
  followed by two spaces per nesting level, and separates a key from its value by a
  colon and a space. An empty list is \<open>[]\<close> and an empty dict is \<open>{}\<close>.
\<close>

definition hex_char :: "nat \<Rightarrow> nat" where
  "hex_char d = (if d < 10 then ord CHR ''0'' + d else ord CHR ''a'' + (d - 10))"

definition hex4 :: "nat \<Rightarrow> str" where
  "hex4 n = [hex_char (n div 4096 mod 16), hex_char (n div 256 mod 16),
             hex_char (n div 16 mod 16), hex_char (n mod 16)]"

text \<open>
  The escape of one code point. Quotation mark is 34, backslash 92, and the control
  characters with a short escape are backspace 8, tab 9, line feed 10, form feed 12 and
  carriage return 13. A code point from \<open>0x10000\<close> on is written as a surrogate pair:
  \<open>0xd800 | ((n >> 10) & 0x3ff)\<close> and \<open>0xdc00 | (n & 0x3ff)\<close> for \<open>n\<close> the code point
  less \<open>0x10000\<close>; the ten low bits of \<open>0xd800\<close> and \<open>0xdc00\<close> are zero, so \<open>|\<close> adds.
\<close>

definition escape_char :: "nat \<Rightarrow> str" where
  "escape_char c =
     (if c = 92 then [92, 92]
      else if c = 34 then [92, 34]
      else if c = 8 then [92, ord CHR ''b'']
      else if c = 12 then [92, ord CHR ''f'']
      else if c = 10 then [92, ord CHR ''n'']
      else if c = 13 then [92, ord CHR ''r'']
      else if c = 9 then [92, ord CHR ''t'']
      else if 32 \<le> c \<and> c \<le> 126 then [c]
      else if c < 0x10000 then [92, ord CHR ''u''] @ hex4 c
      else [92, ord CHR ''u''] @ hex4 (0xD800 + (c - 0x10000) div 1024 mod 1024)
         @ [92, ord CHR ''u''] @ hex4 (0xDC00 + (c - 0x10000) mod 1024))"

definition encode_basestring_ascii :: "str \<Rightarrow> str" where
  "encode_basestring_ascii s = 34 # concat (map escape_char s) @ [34]"

text \<open>
  \<open>floatstr\<close> of the encoder: \<open>o != o\<close> holds of the not-a-number value only, which is
  \<open>float('nan')\<close>.
\<close>

definition floatstr :: "'f python \<Rightarrow> 'f \<Rightarrow> str" where
  "floatstr py x =
     (if x = float_of_str py (ustr ''nan'') then ustr ''NaN''
      else if x = float_of_str py (ustr ''inf'') then ustr ''Infinity''
      else if x = float_of_str py (ustr ''-inf'') then ustr ''-Infinity''
      else float_repr py x)"

definition newline_indent :: "nat \<Rightarrow> str" where
  "newline_indent level = 10 # replicate (2 * level) 32"

fun join_str :: "str \<Rightarrow> str list \<Rightarrow> str" where
  "join_str sep [] = []"
| "join_str sep [x] = x"
| "join_str sep (x # y # ys) = x @ sep @ join_str sep (y # ys)"

fun iterencode :: "'f python \<Rightarrow> nat \<Rightarrow> 'f json \<Rightarrow> str" where
  "iterencode py level JNull = ustr ''null''"
| "iterencode py level (JBool b) = (if b then ustr ''true'' else ustr ''false'')"
| "iterencode py level (JInt i) = str_of_int i"
| "iterencode py level (JFloat x) = floatstr py x"
| "iterencode py level (JStr s) = encode_basestring_ascii s"
| "iterencode py level (JList lst) =
     (if lst = [] then ustr ''[]''
      else ustr ''['' @ newline_indent (Suc level)
        @ join_str (ord CHR '','' # newline_indent (Suc level))
            (map (iterencode py (Suc level)) lst)
        @ newline_indent level @ ustr '']'')"
| "iterencode py level (JDict dct) =
     (if dct = [] then ustr ''{}''
      else ustr ''{'' @ newline_indent (Suc level)
        @ join_str (ord CHR '','' # newline_indent (Suc level))
            (map (\<lambda>item. encode_basestring_ascii (fst item) @ ustr '': ''
                            @ iterencode py (Suc level) (snd item)) dct)
        @ newline_indent level @ ustr ''}'')"

definition json_dumps :: "'f python \<Rightarrow> 'f json \<Rightarrow> str" where
  "json_dumps py obj = iterencode py 0 obj"

section \<open>Parsing: \<open>json.loads(text)\<close>\<close>

text \<open>
  The decoder works on the text that is left; where the library keeps an index \<open>end\<close>
  into the string, the model keeps the suffix from \<open>end\<close> on. Every \<open>raise
  JSONDecodeError\<close> of the library (and every \<open>StopIteration\<close> that it turns into one)
  is the value \<open>Inl JSONDecodeError\<close>. The decoder ends with another exception in
  two cases: \<open>RecursionError\<close>, when the text nests more containers than the
  interpreter has room for, and \<open>ValueError\<close>, when \<open>int\<close> refuses the digits of an
  integer.
\<close>

definition is_json_ws :: "nat \<Rightarrow> bool" where
  "is_json_ws c = (c = 32 \<or> c = 9 \<or> c = 10 \<or> c = 13)"

definition skip_ws :: "str \<Rightarrow> str" where
  "skip_ws s = dropWhile is_json_ws s"

subsection \<open>Strings\<close>

definition hex_val :: "nat \<Rightarrow> nat option" where
  "hex_val c =
     (if ord CHR ''0'' \<le> c \<and> c \<le> ord CHR ''9'' then Some (c - ord CHR ''0'')
      else if ord CHR ''a'' \<le> c \<and> c \<le> ord CHR ''f'' then Some (c - ord CHR ''a'' + 10)
      else if ord CHR ''A'' \<le> c \<and> c \<le> ord CHR ''F'' then Some (c - ord CHR ''A'' + 10)
      else None)"

text \<open>The four hexadecimal digits after \<open>\u\<close>, if they are there.\<close>

definition decode_uXXXX :: "str \<Rightarrow> nat option" where
  "decode_uXXXX s =
     (case s of
        a # b # c # d # _ \<Rightarrow>
          (case (hex_val a, hex_val b, hex_val c, hex_val d) of
             (Some x, Some y, Some z, Some w) \<Rightarrow> Some (((x * 16 + y) * 16 + z) * 16 + w)
           | _ \<Rightarrow> None)
      | _ \<Rightarrow> None)"

definition backslash :: "nat \<Rightarrow> nat option" where
  "backslash esc =
     (if esc = 34 then Some 34
      else if esc = 92 then Some 92
      else if esc = ord CHR ''/'' then Some (ord CHR ''/'')
      else if esc = ord CHR ''b'' then Some 8
      else if esc = ord CHR ''f'' then Some 12
      else if esc = ord CHR ''n'' then Some 10
      else if esc = ord CHR ''r'' then Some 13
      else if esc = ord CHR ''t'' then Some 9
      else None)"

definition is_high_surrogate :: "nat \<Rightarrow> bool" where
  "is_high_surrogate c = (0xD800 \<le> c \<and> c \<le> 0xDBFF)"

definition is_low_surrogate :: "nat \<Rightarrow> bool" where
  "is_low_surrogate c = (0xDC00 \<le> c \<and> c \<le> 0xDFFF)"

text \<open>
  The low surrogate that joins a high surrogate just decoded: the text goes on with
  \<open>\u\<close> and four hexadecimal digits whose value is a low surrogate.
\<close>

definition low_surrogate_escape :: "str \<Rightarrow> nat option" where
  "low_surrogate_escape s =
     (case s of
        b # u # r \<Rightarrow>
          (if b = 92 \<and> u = ord CHR ''u'' then
             (case decode_uXXXX r of
                Some uni2 \<Rightarrow> if is_low_surrogate uni2 then Some uni2 else None
              | None \<Rightarrow> None)
           else None)
      | _ \<Rightarrow> None)"

definition cons_chunk :: "nat \<Rightarrow> error + str \<times> str \<Rightarrow> error + str \<times> str" where
  "cons_chunk c res = (case res of Inl e \<Rightarrow> Inl e | Inr (chunks, rest) \<Rightarrow> Inr (c # chunks, rest))"

text \<open>
  \<open>scanstring\<close> starts after the opening quotation mark and returns the string and the
  text after the closing one. It is strict: a raw control character ends the parse with
  an error, as does the end of the text, an unknown escape and a \<open>\u\<close> without four
  hexadecimal digits.
\<close>

fun scanstring :: "str \<Rightarrow> error + str \<times> str" where
  "scanstring [] = Inl JSONDecodeError"
| "scanstring (c # cs) =
     (if c = 34 then Inr ([], cs)
      else if c = 92 then
        (case cs of
           [] \<Rightarrow> Inl JSONDecodeError
         | esc # es \<Rightarrow>
             if esc = ord CHR ''u'' then
               (case decode_uXXXX es of
                  None \<Rightarrow> Inl JSONDecodeError
                | Some uni \<Rightarrow>
                    (case (if is_high_surrogate uni then low_surrogate_escape (drop 4 es)
                           else None) of
                       Some uni2 \<Rightarrow>
                         cons_chunk (0x10000 + (uni - 0xD800) * 1024 + (uni2 - 0xDC00))
                           (scanstring (drop 10 es))
                     | None \<Rightarrow> cons_chunk uni (scanstring (drop 4 es))))
             else
               (case backslash esc of
                  None \<Rightarrow> Inl JSONDecodeError
                | Some ch \<Rightarrow> cons_chunk ch (scanstring es)))
      else if c < 32 then Inl JSONDecodeError
      else cons_chunk c (scanstring cs))"

subsection \<open>Numbers\<close>

text \<open>
  The number pattern of the scanner,
  \<^verbatim>\<open>(-?(?:0|[1-9][0-9]*))(\.[0-9]+)?([eE][-+]?[0-9]+)?\<close>,
  matched at the start of the text: the three groups (an absent group is the empty
  string) and the text after the match. Each part is greedy, and a fraction or an
  exponent without a digit is no part of the match.
\<close>

definition match_frac :: "str \<Rightarrow> str \<times> str" where
  "match_frac s =
     (case s of
        p # d # ds \<Rightarrow>
          if p = ord CHR ''.'' \<and> is_digit d
          then (p # d # takeWhile is_digit ds, dropWhile is_digit ds)
          else ([], s)
      | _ \<Rightarrow> ([], s))"

definition match_digits1 :: "str \<Rightarrow> str \<Rightarrow> str \<Rightarrow> str \<times> str" where
  "match_digits1 whole pre s =
     (case s of
        d # ds \<Rightarrow>
          if is_digit d then (pre @ d # takeWhile is_digit ds, dropWhile is_digit ds)
          else ([], whole)
      | [] \<Rightarrow> ([], whole))"

definition match_exp :: "str \<Rightarrow> str \<times> str" where
  "match_exp s =
     (case s of
        e # r \<Rightarrow>
          if e = ord CHR ''e'' \<or> e = ord CHR ''E'' then
            (case r of
               sg # r' \<Rightarrow>
                 if sg = ord CHR ''-'' \<or> sg = ord CHR ''+'' then match_digits1 s [e, sg] r'
                 else match_digits1 s [e] r
             | [] \<Rightarrow> ([], s))
          else ([], s)
      | [] \<Rightarrow> ([], s))"

definition match_int :: "str \<Rightarrow> (str \<times> str) option" where
  "match_int s =
     (case s of
        [] \<Rightarrow> None
      | d # ds \<Rightarrow>
          if d = ord CHR ''0'' then Some ([d], ds)
          else if is_digit d then Some (d # takeWhile is_digit ds, dropWhile is_digit ds)
          else None)"

definition match_number :: "str \<Rightarrow> (str \<times> str \<times> str \<times> str) option" where
  "match_number s =
     (case (case s of
              c # cs \<Rightarrow>
                if c = ord CHR ''-'' then map_option (\<lambda>(i, r). (c # i, r)) (match_int cs)
                else match_int s
            | [] \<Rightarrow> None) of
        None \<Rightarrow> None
      | Some (integer, r) \<Rightarrow>
          (case match_frac r of
             (frac, r') \<Rightarrow> (case match_exp r' of (exp, r'') \<Rightarrow> Some (integer, frac, exp, r''))))"

subsection \<open>Values\<close>

text \<open>
  \<open>d[key] = value\<close> on a dict: the value of a present key is replaced where it is, a
  new key goes to the end. \<open>dict(pairs)\<close> stores the pairs one after the other.
\<close>

fun dict_setitem :: "(str \<times> 'v) list \<Rightarrow> str \<Rightarrow> 'v \<Rightarrow> (str \<times> 'v) list" where
  "dict_setitem [] k v = [(k, v)]"
| "dict_setitem (item # d) k v =
     (if fst item = k then (k, v) # d else item # dict_setitem d k v)"

definition dict_of_pairs :: "(str \<times> 'v) list \<Rightarrow> (str \<times> 'v) list" where
  "dict_of_pairs pairs = foldl (\<lambda>d (k, v). dict_setitem d k v) [] pairs"

text \<open>
  \<open>scan_once\<close>, the array loop and the object loop call each other. Their recursion
  follows the nesting of the text, so they take fuel: each call passes one unit less,
  and a call without fuel is \<open>Inl OutOfFuel\<close>. \<open>json_loads\<close> gives as much fuel as
  no text can use up (lemma \<open>json_loads_fuel\<close>). The argument \<open>depth\<close> is the number
  of containers that can still be entered: \<open>scan_once\<close> registers the recursive call
  when it meets the opening brace or bracket, before it looks at what follows.

  \<open>JSONArray\<close> starts after the opening bracket, \<open>JSONObject\<close> after the opening brace,
  \<open>array_items\<close> at the first item of a non-empty array and \<open>object_items\<close> after the
  opening quotation mark of a key.
\<close>

fun scan_once :: "'f python \<Rightarrow> nat \<Rightarrow> nat \<Rightarrow> str \<Rightarrow> error + 'f json \<times> str"
  and array_items :: "'f python \<Rightarrow> nat \<Rightarrow> nat \<Rightarrow> str \<Rightarrow> error + 'f json list \<times> str"
  and object_items :: "'f python \<Rightarrow> nat \<Rightarrow> nat \<Rightarrow> str \<Rightarrow> error + (str \<times> 'f json) list \<times> str"
where
  "scan_once py depth 0 s = Inl OutOfFuel"
| "scan_once py depth (Suc n) s =
     (case s of
        [] \<Rightarrow> Inl JSONDecodeError
      | nextchar # s' \<Rightarrow>
          if nextchar = 34 then
            (case scanstring s' of Inl e \<Rightarrow> Inl e | Inr (str, r) \<Rightarrow> Inr (JStr str, r))
          else if nextchar = ord CHR ''{'' then
            (if depth = 0 then Inl RecursionError
             else
               (case skip_ws s' of
                  [] \<Rightarrow> Inl JSONDecodeError
                | c # r \<Rightarrow>
                    if c = ord CHR ''}'' then Inr (JDict [], r)
                    else if c = 34 then
                      (case object_items py (depth - 1) n r of
                         Inl e \<Rightarrow> Inl e
                       | Inr (pairs, r') \<Rightarrow> Inr (JDict (dict_of_pairs pairs), r'))
                    else Inl JSONDecodeError))
          else if nextchar = ord CHR ''['' then
            (if depth = 0 then Inl RecursionError
             else
               (case skip_ws s' of
                  [] \<Rightarrow> Inl JSONDecodeError
                | c # r \<Rightarrow>
                    if c = ord CHR '']'' then Inr (JList [], r)
                    else
                      (case array_items py (depth - 1) n (c # r) of
                         Inl e \<Rightarrow> Inl e
                       | Inr (values, r') \<Rightarrow> Inr (JList values, r'))))
          else if startswith s (ustr ''null'') then Inr (JNull, drop 4 s)
          else if startswith s (ustr ''true'') then Inr (JBool True, drop 4 s)
          else if startswith s (ustr ''false'') then Inr (JBool False, drop 5 s)
          else
            (case match_number s of
               Some (integer, frac, exp, r) \<Rightarrow>
                 if frac \<noteq> [] \<or> exp \<noteq> []
                 then Inr (JFloat (float_of_str py (integer @ frac @ exp)), r)
                 else
                   (case int_of_str py integer of
                      Inl e \<Rightarrow> Inl e
                    | Inr i \<Rightarrow> Inr (JInt i, r))
             | None \<Rightarrow>
                 if startswith s (ustr ''NaN'')
                 then Inr (JFloat (float_of_str py (ustr ''nan'')), drop 3 s)
                 else if startswith s (ustr ''Infinity'')
                 then Inr (JFloat (float_of_str py (ustr ''inf'')), drop 8 s)
                 else if startswith s (ustr ''-Infinity'')
                 then Inr (JFloat (float_of_str py (ustr ''-inf'')), drop 9 s)
                 else Inl JSONDecodeError))"
| "array_items py depth 0 s = Inl OutOfFuel"
| "array_items py depth (Suc n) s =
     (case scan_once py depth n s of
        Inl e \<Rightarrow> Inl e
      | Inr (value, r) \<Rightarrow>
          (case skip_ws r of
             [] \<Rightarrow> Inl JSONDecodeError
           | nextchar # r' \<Rightarrow>
               if nextchar = ord CHR '']'' then Inr ([value], r')
               else if nextchar \<noteq> ord CHR '','' then Inl JSONDecodeError
               else
                 (case array_items py depth n (skip_ws r') of
                    Inl e \<Rightarrow> Inl e
                  | Inr (values, r'') \<Rightarrow> Inr (value # values, r''))))"
| "object_items py depth 0 s = Inl OutOfFuel"
| "object_items py depth (Suc n) s =
     (case scanstring s of
        Inl e \<Rightarrow> Inl e
      | Inr (key, r) \<Rightarrow>
          (case skip_ws r of
             [] \<Rightarrow> Inl JSONDecodeError
           | colon # r' \<Rightarrow>
               if colon \<noteq> ord CHR '':'' then Inl JSONDecodeError
               else
                 (case scan_once py depth n (skip_ws r') of
                    Inl e \<Rightarrow> Inl e
                  | Inr (value, r'') \<Rightarrow>
                      (case skip_ws r'' of
                         [] \<Rightarrow> Inl JSONDecodeError
                       | nextchar # r3 \<Rightarrow>
                           if nextchar = ord CHR ''}'' then Inr ([(key, value)], r3)
                           else if nextchar \<noteq> ord CHR '','' then Inl JSONDecodeError
                           else
                             (case skip_ws r3 of
                                [] \<Rightarrow> Inl JSONDecodeError
                              | q # r4 \<Rightarrow>
                                  if q \<noteq> 34 then Inl JSONDecodeError
                                  else
                                    (case object_items py depth n r4 of
                                       Inl e \<Rightarrow> Inl e
                                     | Inr (pairs, r5) \<Rightarrow> Inr ((key, value) # pairs, r5)))))))"

text \<open>
  \<open>json.loads\<close> of a \<open>str\<close>: a leading byte order mark is an error, white space
  around the value is skipped and anything else after the value is an error
  (\<open>Extra data\<close>).
\<close>

definition json_loads :: "'f python \<Rightarrow> str \<Rightarrow> error + 'f json" where
  "json_loads py s =
     (if startswith s [0xFEFF] then Inl JSONDecodeError
      else
        (case scan_once py (Suc (recursion_headroom py)) (2 * length s + 2) (skip_ws s) of
           Inl e \<Rightarrow> Inl e
         | Inr (obj, r) \<Rightarrow> if skip_ws r = [] then Inr obj else Inl JSONDecodeError))"

section \<open>The parsed document\<close>

text \<open>
  The tree that \<open>BeautifulSoup(resp.text, "html.parser")\<close> builds: an element has a
  name (the parser lower-cases it), the values of its \<open>class\<close> attribute and its
  children; \<open>Text\<close> is a string that \<open>get_text\<close> returns; \<open>Hidden\<close> is a string that
  it leaves out (a comment, a declaration, the content of a script or style element).
  A \<open>soup\<close> is the list of the top-level nodes.

  Document order is the order in which the parser met the nodes: a node comes before its
  children. \<open>descendants\<close> lists all nodes in this order, and a node of the document is
  identified by its position in the list, since two elements with the same content at
  different places are different blocks.
\<close>

datatype node =
    Text str
  | Hidden str
  | Element str "str list" "node list"

type_synonym soup = "node list"

fun preorder :: "node \<Rightarrow> node list" where
  "preorder (Text t) = [Text t]"
| "preorder (Hidden t) = [Hidden t]"
| "preorder (Element name classes children) =
     Element name classes children # concat (map preorder children)"

definition descendants :: "soup \<Rightarrow> node list" where
  "descendants soup = concat (map preorder soup)"

fun get_text :: "node \<Rightarrow> str" where
  "get_text (Text t) = t"
| "get_text (Hidden t) = []"
| "get_text (Element name classes children) = concat (map get_text children)"

text \<open>
  \<open>soup.select("div.hljs, pre, code")\<close>: the elements that match one of the three
  selectors, each once, in document order.
\<close>

definition matches_selectors :: "node \<Rightarrow> bool" where
  "matches_selectors n =
     (case n of
        Element name classes children \<Rightarrow>
          (name = ustr ''div'' \<and> ustr ''hljs'' \<in> set classes)
          \<or> name = ustr ''pre'' \<or> name = ustr ''code''
      | _ \<Rightarrow> False)"

definition select :: "soup \<Rightarrow> nat list" where
  "select soup =
     filter (\<lambda>i. matches_selectors (descendants soup ! i)) [0 ..< length (descendants soup)]"

text \<open>
  \<open>block.find_previous(["h2", "h3"])\<close>: the nearest element named \<open>h2\<close> or \<open>h3\<close> that
  comes before the block in document order (its ancestors are among them), or \<open>None\<close>.
\<close>

definition is_heading :: "node \<Rightarrow> bool" where
  "is_heading n =
     (case n of
        Element name classes children \<Rightarrow> name = ustr ''h2'' \<or> name = ustr ''h3''
      | _ \<Rightarrow> False)"

definition find_previous :: "soup \<Rightarrow> nat \<Rightarrow> node option" where
  "find_previous soup block =
     (case filter is_heading (rev (take block (descendants soup))) of
        [] \<Rightarrow> None
      | header # _ \<Rightarrow> Some header)"

section \<open>The extractor\<close>

text \<open>
  The effects of the script: the files it writes, as the list of the writes (path and
  content left in the file) in the order they happen, and the lines it prints. A later
  write to a path replaces the file; \<open>disk\<close> is the content of the output files
  after the writes. The script creates the output directory before \<open>main\<close> runs and
  writes nothing then.
\<close>

record world =
  writes :: "(str \<times> str) list"
  stdout :: "str list"

definition disk :: "world \<Rightarrow> str \<rightharpoonup> str" where
  "disk w = map_of (rev (writes w))"

definition OUT_DIR :: str where
  "OUT_DIR = ustr ''src/test/resources/strava''"

text \<open>\<open>os.path.join\<close> of two components, on POSIX.\<close>

definition os_path_join :: "str \<Rightarrow> str \<Rightarrow> str" where
  "os_path_join a b =
     (if startswith b (ustr ''/'') then b
      else if a = [] \<or> last a = ord CHR ''/'' then a @ b
      else a @ ustr ''/'' @ b)"

text \<open>
  \<^verbatim>\<open>
  for block in blocks:
      text = block.get_text().strip()
      if not (text.startswith("{") or text.startswith("[")):
          continue
      try:
          parsed = json.loads(text)
      except json.JSONDecodeError:
          continue
      header = block.find_previous(["h2", "h3"])
      title = clean_name(header.get_text()) if header else f"example-{saved+1}"
      fname = os.path.join(OUT_DIR, f"{title}.json")
      with open(fname, "w", encoding="utf-8") as f:
          json.dump(parsed, f, indent=2)
      print(f"<check mark> Saved {fname}")
      saved += 1
  \<close>
  One pass of the loop body takes the counter \<open>saved\<close> and the world and returns the
  new counter, or the exception that leaves the loop, and the new world. Only
  \<open>JSONDecodeError\<close> is caught. A tag is true in a condition whatever its content,
  so \<open>if header\<close> asks whether a heading was found.

  \<open>save_example\<close> is the end of the loop body, from \<open>with open\<close> on: the write of
  the serialised value, the line printed and the counter. An exception of \<open>open\<close>, of
  a write or of \<open>print\<close> is not caught. \<open>json.dump\<close> serialises what \<open>json.loads\<close>
  has returned, which it always can: the value has no cycle, its keys are strings, and an
  integer in it has as many digits as the numeral that \<open>int\<close> accepted.
\<close>

definition save_example ::
  "'f python \<Rightarrow> str \<Rightarrow> str \<Rightarrow> nat \<Rightarrow> world \<Rightarrow> (error + nat) \<times> world" where
  "save_example py fname content saved w =
     (case fs_write py (writes w) fname content of
        NotOpened \<Rightarrow> (Inl OSError, w)
      | Broken left \<Rightarrow> (Inl OSError, w\<lparr>writes := writes w @ [(fname, left)]\<rparr>)
      | Written \<Rightarrow>
          (case print_error py (0x2713 # ustr '' Saved '' @ fname) of
             Some e \<Rightarrow> (Inl e, w\<lparr>writes := writes w @ [(fname, content)]\<rparr>)
           | None \<Rightarrow>
               (Inr (saved + 1),
                w\<lparr>writes := writes w @ [(fname, content)],
                  stdout := stdout w @ [0x2713 # ustr '' Saved '' @ fname]\<rparr>)))"

definition process_block ::
  "'f python \<Rightarrow> soup \<Rightarrow> nat \<Rightarrow> nat \<Rightarrow> world \<Rightarrow> (error + nat) \<times> world" where
  "process_block py soup block saved w =
     (let text = strip (get_text (descendants soup ! block)) in
      if \<not> (startswith text (ustr ''{'') \<or> startswith text (ustr ''['')) then (Inr saved, w)
      else
        (case json_loads py text of
           Inl e \<Rightarrow> if e = JSONDecodeError then (Inr saved, w) else (Inl e, w)
         | Inr parsed \<Rightarrow>
             let header = find_previous soup block;
                 title = (case header of
                            Some h \<Rightarrow> clean_name (unicode_lower py) (get_text h)
                          | None \<Rightarrow> ustr ''example-'' @ str_of_nat (saved + 1));
                 fname = os_path_join OUT_DIR (title @ ustr ''.json'')
             in save_example py fname (json_dumps py parsed) saved w))"

fun extract_loop ::
  "'f python \<Rightarrow> soup \<Rightarrow> nat list \<Rightarrow> nat \<Rightarrow> world \<Rightarrow> (error + nat) \<times> world" where
  "extract_loop py soup [] saved w = (Inr saved, w)"
| "extract_loop py soup (block # blocks) saved w =
     (case process_block py soup block saved w of
        (Inl e, w') \<Rightarrow> (Inl e, w')
      | (Inr saved', w') \<Rightarrow> extract_loop py soup blocks saved' w')"

text \<open>The function \<open>extract(soup)\<close> of the script; it ends with the line of the total.\<close>

definition total_line :: "nat \<Rightarrow> str" where
  "total_line saved =
     0x2705 # ustr '' Total saved: '' @ str_of_nat saved @ ustr '' example JSON files.''"

definition extract_soup :: "'f python \<Rightarrow> soup \<Rightarrow> world \<Rightarrow> (error + unit) \<times> world" where
  "extract_soup py soup w =
     (case extract_loop py soup (select soup) 0 w of
        (Inl e, w') \<Rightarrow> (Inl e, w')
      | (Inr saved, w') \<Rightarrow>
          (case print_error py (total_line saved) of
             Some e \<Rightarrow> (Inl e, w')
           | None \<Rightarrow> (Inr (), w'\<lparr>stdout := stdout w' @ [total_line saved]\<rparr>)))"

section \<open>Fetching\<close>





section \<open>Vocabulary of the properties\<close>

text \<open>
  The text of a block as the loop sees it (\<open>block.get_text().strip()\<close>), the test that
  the loop makes on it, and the blocks that the loop saves: those whose text passes the
  test and parses.
\<close>

definition block_text :: "soup \<Rightarrow> nat \<Rightarrow> str" where
  "block_text soup block = strip (get_text (descendants soup ! block))"

definition looks_like_json :: "str \<Rightarrow> bool" where
  "looks_like_json text = (startswith text (ustr ''{'') \<or> startswith text (ustr ''[''))"

definition saved_block :: "'f python \<Rightarrow> soup \<Rightarrow> nat \<Rightarrow> bool" where
  "saved_block py soup block =
     (looks_like_json (block_text soup block) \<and> \<not> isl (json_loads py (block_text soup block)))"

definition saved_blocks :: "'f python \<Rightarrow> soup \<Rightarrow> nat list" where
  "saved_blocks py soup = filter (saved_block py soup) (select soup)"

text \<open>The exceptions that \<open>json.loads\<close> raises on a text.\<close>

definition loads_error :: "error \<Rightarrow> bool" where
  "loads_error e = (e = JSONDecodeError \<or> e = RecursionError \<or> e = ValueError)"

text \<open>The writes that a run adds to the world it started in.\<close>

definition new_writes :: "world \<Rightarrow> world \<Rightarrow> (str \<times> str) list" where
  "new_writes w w' = drop (length (writes w)) (writes w')"

definition no_output :: world where
  "no_output = \<lparr>writes = [], stdout = []\<rparr>"

text \<open>
  An instance of the platform, for concrete runs: the lower-case mapping leaves every
  code point beyond ASCII as it is, and the floats are the whole numbers, \<open>float(s)\<close>
  reading the digits before the point and \<open>repr\<close> writing \<open>.0\<close> after them. The
  interpreter has room for 1000 nested containers and converts 4300 digits, the file
  system takes every write and the standard output every line.
\<close>

definition py0 :: "int python" where
  "py0 = \<lparr>unicode_lower = (\<lambda>done c rest. [c]),
          float_of_str = (\<lambda>s. int_value (takeWhile (\<lambda>c. c \<noteq> ord CHR ''.'') s)),
          float_repr = (\<lambda>x. str_of_int x @ ustr ''.0''),
          recursion_headroom = 999,
          int_max_str_digits = 4300,
          fs_write = (\<lambda>before fname content. Written),
          print_error = (\<lambda>line. None)\<rparr>"

text \<open>
  A platform on which no write and no \<open>print\<close> of the script fails.
\<close>

definition reliable :: "'f python \<Rightarrow> bool" where
  "reliable py =
     ((\<forall>before fname content. fs_write py before fname content = Written)
      \<and> (\<forall>line. print_error py line = None))"

text \<open>
  A block on whose text \<open>json.loads\<close> raises an exception that the loop does not catch.
\<close>

definition raising_block :: "'f python \<Rightarrow> soup \<Rightarrow> nat \<Rightarrow> bool" where
  "raising_block py soup block =
     (looks_like_json (block_text soup block)
      \<and> (case json_loads py (block_text soup block) of
           Inl e \<Rightarrow> e \<noteq> JSONDecodeError
         | Inr parsed \<Rightarrow> False))"

text \<open>
  The path that the loop body computes for a block when \<open>saved\<close> examples have been
  saved before it, and the file that it writes then.
\<close>

definition file_name :: "'f python \<Rightarrow> soup \<Rightarrow> nat \<Rightarrow> nat \<Rightarrow> str" where
  "file_name py soup block saved =
     os_path_join OUT_DIR
       ((case find_previous soup block of
           Some h \<Rightarrow> clean_name (unicode_lower py) (get_text h)
         | None \<Rightarrow> ustr ''example-'' @ str_of_nat (saved + 1)) @ ustr ''.json'')"

definition saved_file :: "'f python \<Rightarrow> soup \<Rightarrow> nat \<times> nat \<Rightarrow> str \<times> str" where
  "saved_file py soup kb =
     (file_name py soup (snd kb) (fst kb),
      json_dumps py (projr (json_loads py (block_text soup (snd kb)))))"

text \<open>
  The normalisation in the words of the specification: lower-case the text, replace
  every maximal run of characters outside \<open>[a-z0-9-]\<close> with a single hyphen, then
  strip leading and trailing hyphens. \<open>replace_runs\<close> reads the second step as it
  is worded: a code point outside the class is replaced by a hyphen together with all
  the code points outside the class that follow it.
\<close>

function replace_runs :: "str \<Rightarrow> str" where
  "replace_runs [] = []"
| "replace_runs (c # cs) =
     (if name_char c then c # replace_runs cs
      else hyphen # replace_runs (dropWhile (\<lambda>x. \<not> name_char x) cs))"
  by pat_completeness auto

termination
  by (relation "measure length") (auto simp: less_Suc_eq_le length_dropWhile_le)

definition spec_normalize :: "unicode_lower \<Rightarrow> str \<Rightarrow> str" where
  "spec_normalize lo text = strip_chars (\<lambda>c. c = hyphen) (replace_runs (lower lo text))"

section \<open>Vocabulary of the round trip\<close>

text \<open>
  A Python string holds code points below \<open>0x110000\<close>. A string has a split pair
  when a high surrogate is followed at once by a low surrogate, as two code points.
\<close>

definition valid_str :: "str \<Rightarrow> bool" where
  "valid_str s = list_all (\<lambda>c. c < 0x110000) s"

fun split_pair_free :: "str \<Rightarrow> bool" where
  "split_pair_free (a # b # cs) =
     (\<not> (is_high_surrogate a \<and> is_low_surrogate b) \<and> split_pair_free (b # cs))"
| "split_pair_free cs = True"

text \<open>
  \<open>json_all P v\<close>: every string in the value \<open>v\<close>, a key or a string value at any depth,
  satisfies \<open>P\<close>. \<open>distinct_keys v\<close>: no dict in \<open>v\<close> has a key twice.
\<close>

fun json_all :: "(str \<Rightarrow> bool) \<Rightarrow> 'f json \<Rightarrow> bool" where
  "json_all P (JStr s) = P s"
| "json_all P (JList lst) = list_all (json_all P) lst"
| "json_all P (JDict dct) = list_all (\<lambda>item. P (fst item) \<and> json_all P (snd item)) dct"
| "json_all P v = True"

fun distinct_keys :: "'f json \<Rightarrow> bool" where
  "distinct_keys (JList lst) = list_all distinct_keys lst"
| "distinct_keys (JDict dct) =
     (distinct (map fst dct) \<and> list_all (\<lambda>item. distinct_keys (snd item)) dct)"
| "distinct_keys v = True"

text \<open>
  What the model asks of the floats of the library: \<open>repr\<close> of a float that is neither
  not-a-number nor infinite is a number of the JSON grammar with a fraction or an
  exponent, and \<open>float\<close> reads it back as the same float.
\<close>

definition float_literal :: "str \<Rightarrow> bool" where
  "float_literal s =
     (case match_number s of
        Some (integer, frac, exp, r) \<Rightarrow> r = [] \<and> (frac \<noteq> [] \<or> exp \<noteq> [])
      | None \<Rightarrow> False)"

definition float_contract :: "'f python \<Rightarrow> bool" where
  "float_contract py =
     (\<forall>x. x \<noteq> float_of_str py (ustr ''nan'') \<and> x \<noteq> float_of_str py (ustr ''inf'')
            \<and> x \<noteq> float_of_str py (ustr ''-inf'')
        \<longrightarrow> float_literal (float_repr py x) \<and> float_of_str py (float_repr py x) = x)"

text \<open>
  What can follow a number without being read as part of it; in particular the comma
  and the line break that the encoder writes after a value.
\<close>

definition number_end :: "str \<Rightarrow> bool" where
  "number_end r =
     (case r of
        [] \<Rightarrow> True
      | c # _ \<Rightarrow> \<not> is_digit c \<and> c \<noteq> ord CHR ''.'' \<and> c \<noteq> ord CHR ''e'' \<and> c \<noteq> ord CHR ''E''
                 \<and> c \<noteq> ord CHR ''+'' \<and> c \<noteq> ord CHR ''-'')"

text \<open>
  What the encoder writes after a value inside a list or a dict: a comma, or the line
  break before the closing bracket; and nothing after the outermost value.
\<close>

definition value_end :: "str \<Rightarrow> bool" where
  "value_end r = (case r of [] \<Rightarrow> True | c # _ \<Rightarrow> c = ord CHR '','' \<or> c = 10)"

text \<open>
  What the platform can read back: an integer whose numeral \<open>int\<close> converts, and a
  value that nests no more containers than \<open>depth\<close>.
\<close>

definition int_fits :: "'f python \<Rightarrow> int \<Rightarrow> bool" where
  "int_fits py i = (int_of_str py (str_of_int i) \<noteq> Inl ValueError)"

fun ints_fit :: "'f python \<Rightarrow> 'f json \<Rightarrow> bool" where
  "ints_fit py (JInt i) = int_fits py i"
| "ints_fit py (JList lst) = list_all (ints_fit py) lst"
| "ints_fit py (JDict dct) = list_all (\<lambda>item. ints_fit py (snd item)) dct"
| "ints_fit py v = True"

fun nests_within :: "nat \<Rightarrow> 'f json \<Rightarrow> bool" where
  "nests_within depth (JList lst) = (depth \<noteq> 0 \<and> list_all (nests_within (depth - 1)) lst)"
| "nests_within depth (JDict dct) =
     (depth \<noteq> 0 \<and> list_all (\<lambda>item. nests_within (depth - 1) (snd item)) dct)"
| "nests_within depth v = True"

section \<open>Properties of the name normalisation\<close>

lemma name_char_sub_runs: "list_all name_char (sub_runs b s)"
  by (induction s arbitrary: b) (auto simp: name_char_def hyphen_def)

lemma sub_runs_id: "list_all name_char s \<Longrightarrow> sub_runs False s = s"
  by (induction s) auto

lemma lower_from_id: "list_all name_char s \<Longrightarrow> lower_from lo d s = s"
  by (induction s arbitrary: d) (auto simp: name_char_def ascii_lower_def hyphen_def)

lemma last_dropWhile: "xs \<noteq> [] \<Longrightarrow> \<not> P (last xs) \<Longrightarrow> dropWhile P xs \<noteq> [] \<and> last (dropWhile P xs) = last xs"
  by (induction xs) auto

lemma startswith_single: "startswith s [c] = (s \<noteq> [] \<and> hd s = c)"
  by (cases s) (auto simp: startswith_def)

lemma strip_chars_subset: "list_all Q s \<Longrightarrow> list_all Q (strip_chars P s)"
proof -
  have "set (strip_chars P s) \<subseteq> set s"
  proof
    fix x assume "x \<in> set (strip_chars P s)"
    then have "x \<in> set (dropWhile P (rev (dropWhile P s)))" by (simp add: strip_chars_def)
    then have "x \<in> set (rev (dropWhile P s))" by (rule set_dropWhileD)
    then have "x \<in> set (dropWhile P s)" by simp
    then show "x \<in> set s" by (rule set_dropWhileD)
  qed
  then show "list_all Q s \<Longrightarrow> list_all Q (strip_chars P s)"
    by (auto simp: list_all_iff)
qed

lemma strip_chars_ends:
  assumes "strip_chars P s \<noteq> []"
  shows "\<not> P (hd (strip_chars P s)) \<and> \<not> P (last (strip_chars P s))"
proof -
  let ?t = "dropWhile P s"
  from assms have t: "?t \<noteq> []" by (cases "dropWhile P s = []") (simp_all add: strip_chars_def)
  then have ht: "\<not> P (hd ?t)" by (simp add: hd_dropWhile)
  have "rev ?t \<noteq> []" "\<not> P (last (rev ?t))" using t ht by (simp_all add: last_rev)
  then have d: "dropWhile P (rev ?t) \<noteq> []" "last (dropWhile P (rev ?t)) = last (rev ?t)"
    using last_dropWhile [of "rev ?t" P] by simp_all
  have "hd (strip_chars P s) = last (dropWhile P (rev ?t))"
    using d by (simp add: strip_chars_def hd_rev)
  moreover have "last (strip_chars P s) = hd (dropWhile P (rev ?t))"
    using d by (simp add: strip_chars_def last_rev)
  ultimately show ?thesis using d ht t by (simp add: hd_dropWhile last_rev)
qed

lemma strip_chars_id:
  assumes "s = [] \<or> (\<not> P (hd s) \<and> \<not> P (last s))"
  shows "strip_chars P s = s"
proof (cases "s = []")
  case True then show ?thesis by (simp add: strip_chars_def)
next
  case False
  with assms have h: "\<not> P (hd s)" "\<not> P (last s)" by auto
  have 1: "dropWhile P s = s" using h False by (cases s) auto
  have "rev s \<noteq> []" "\<not> P (hd (rev s))" using h False by (simp_all add: hd_rev)
  then have "dropWhile P (rev s) = rev s" by (cases "rev s") auto
  with 1 show ?thesis by (simp add: strip_chars_def)
qed

lemma valid_name_ends: "valid_name s \<Longrightarrow> s \<noteq> [] \<Longrightarrow> name_char (hd s) \<and> name_char (last s) \<and> hd s \<noteq> hyphen \<and> last s \<noteq> hyphen"
  by (auto simp: valid_name_def startswith_single hd_rev list_all_iff)

lemma valid_name_clean_name: "valid_name (clean_name lo text)"
proof -
  let ?r = "re_sub (lower lo (strip text))"
  let ?c = "strip_chars (\<lambda>c. c = hyphen) ?r"
  have a: "list_all name_char ?c"
    by (simp add: strip_chars_subset name_char_sub_runs re_sub_def)
  have "\<not> startswith ?c [hyphen] \<and> \<not> startswith (rev ?c) [hyphen]"
  proof (cases "?c = []")
    case True then show ?thesis by (simp add: startswith_single)
  next
    case False
    from strip_chars_ends [OF False] have "hd ?c \<noteq> hyphen" "last ?c \<noteq> hyphen" by simp_all
    with False show ?thesis
      by (simp add: startswith_single hd_rev)
  qed
  with a show ?thesis by (simp add: valid_name_def clean_name_def)
qed

lemma clean_name_fixed: 
  assumes "valid_name s" shows "clean_name lo s = s"
proof -
  have all: "list_all name_char s" using assms by (simp add: valid_name_def)
  have nsp: "\<And>c. name_char c \<Longrightarrow> \<not> is_space c"
    by (auto simp: name_char_def is_space_def hyphen_def)
  have 1: "strip s = s"
    unfolding strip_def using valid_name_ends [OF assms] nsp
    by (intro strip_chars_id) auto
  have 2: "lower lo s = s" by (simp add: lower_def lower_from_id all)
  have 3: "re_sub s = s" by (simp add: re_sub_def sub_runs_id all)
  have 4: "strip_chars (\<lambda>c. c = hyphen) s = s"
    using valid_name_ends [OF assms] by (intro strip_chars_id) auto
  show ?thesis by (simp add: clean_name_def 1 2 3 4)
qed

text \<open>
  C5: the name normalisation is idempotent. For every string, normalising the result of
  \<open>clean_name\<close> again gives the same string, whatever the Unicode lower-case mapping is.
\<close>

theorem clean_name_idempotent: "clean_name lo (clean_name lo s) = clean_name lo s"
  by (rule clean_name_fixed) (rule valid_name_clean_name)

section \<open>The decoder consumes its input\<close>

lemma cons_chunk_Inr: "cons_chunk c res = Inr (x, r) \<longleftrightarrow> (\<exists>y. res = Inr (y, r) \<and> x = c # y)"
  by (auto simp: cons_chunk_def split: sum.splits)

lemma cons_chunk_Inl: "cons_chunk c res = Inl e \<longleftrightarrow> res = Inl e"
  by (auto simp: cons_chunk_def split: sum.splits)

lemma scanstring_shorter: "scanstring s = Inr (x, r) \<Longrightarrow> length r < length s"
proof (induction s arbitrary: x rule: scanstring.induct)
  case 1 then show ?case by simp
next
  case (2 c cs)
  then show ?case
    by (fastforce simp: cons_chunk_Inr split: if_splits list.splits option.splits)
qed

lemma scanstring_error: "scanstring s = Inl e \<Longrightarrow> e = JSONDecodeError"
proof (induction s rule: scanstring.induct)
  case 1 then show ?case by simp
next
  case (2 c cs)
  then show ?case
    by (auto simp: cons_chunk_Inl split: if_splits list.splits option.splits)
qed

lemma match_int_shorter: "match_int s = Some (i, r) \<Longrightarrow> length r < length s"
  by (auto simp: match_int_def less_Suc_eq_le length_dropWhile_le split: list.splits if_splits)

lemma match_digits1_shorter: "match_digits1 whole pre s = (x, r) \<Longrightarrow> length s \<le> length whole \<Longrightarrow> length r \<le> length whole"
  by (auto simp: match_digits1_def split: list.splits if_splits intro: order_trans [OF length_dropWhile_le])

lemma match_frac_shorter: "match_frac s = (f, r) \<Longrightarrow> length r \<le> length s"
  by (auto simp: match_frac_def split: list.splits if_splits intro: order_trans [OF length_dropWhile_le])

lemma match_exp_shorter: "match_exp s = (f, r) \<Longrightarrow> length r \<le> length s"
  by (auto simp: match_exp_def split: list.splits if_splits dest!: match_digits1_shorter)

lemma match_number_shorter: "match_number s = Some (i, f, e, r) \<Longrightarrow> length r < length s"
  by (auto simp: match_number_def split: list.splits if_splits option.splits prod.splits
      dest!: match_int_shorter match_frac_shorter match_exp_shorter)

lemma length_skip_ws: "length (skip_ws s) \<le> length s"
  by (simp add: skip_ws_def length_dropWhile_le)

lemma skip_ws_Cons: "skip_ws s = c # r \<Longrightarrow> length r < length s"
  using length_skip_ws [of s] by simp


lemma skip_ws_less: "length r < length (skip_ws x) \<Longrightarrow> length r < length x"
  using length_skip_ws [of x] by simp

lemma startswith_drop_shorter: "startswith s p \<Longrightarrow> p \<noteq> [] \<Longrightarrow> 0 < length s"
  by (cases s) (auto simp: startswith_def)

lemma int_of_str_error: "int_of_str py s = Inl e \<Longrightarrow> e = ValueError"
  by (auto simp: int_of_str_def Let_def split: if_splits)

lemma scan_shorter_aux:
  "(\<forall>d s v r. scan_once py d n s = Inr (v, r) \<longrightarrow> length r < length s) \<and>
   (\<forall>d s vs r. array_items py d n s = Inr (vs, r) \<longrightarrow> length r < length s) \<and>
   (\<forall>d s ps r. object_items py d n s = Inr (ps, r) \<longrightarrow> length r < length s)"
proof (induction n)
  case 0
  show ?case by simp
next
  case (Suc n)
  then have IH1: "\<And>d s v r. scan_once py d n s = Inr (v, r) \<Longrightarrow> length r < length s"
    and IH2: "\<And>d s vs r. array_items py d n s = Inr (vs, r) \<Longrightarrow> length r < length s"
    and IH3: "\<And>d s ps r. object_items py d n s = Inr (ps, r) \<Longrightarrow> length r < length s"
    by blast+
  have 1: "length r < length s" if "scan_once py d (Suc n) s = Inr (v, r)" for d s v r
    using that
    by (auto simp: ustr_def startswith_def split: list.splits if_splits sum.splits option.splits
        dest!: scanstring_shorter IH2 IH3 skip_ws_Cons match_number_shorter)
  have 2: "length r < length s" if "array_items py d (Suc n) s = Inr (vs, r)" for d s vs r
    using that
    by (auto split: list.splits if_splits sum.splits
        dest!: IH1 IH2 skip_ws_Cons skip_ws_less)
  have 3: "length r < length s" if "object_items py d (Suc n) s = Inr (ps, r)" for d s ps r
    using that
    by (auto split: list.splits if_splits sum.splits
        dest!: scanstring_shorter IH1 IH3 skip_ws_Cons skip_ws_less)
  from 1 2 3 show ?case by blast
qed

section \<open>The decoder never runs out of fuel\<close>

lemmas scan_once_shorter = scan_shorter_aux [THEN conjunct1, rule_format]
lemmas array_items_shorter = scan_shorter_aux [THEN conjunct2, THEN conjunct1, rule_format]
lemmas object_items_shorter = scan_shorter_aux [THEN conjunct2, THEN conjunct2, rule_format]

text \<open>
  The exceptions of \<open>json.loads\<close>: the three of the decoder, and never the end of the
  fuel.
\<close>

lemma loads_error_simps [simp]:
  "loads_error JSONDecodeError" "loads_error RecursionError" "loads_error ValueError"
  "\<not> loads_error OutOfFuel"
  by (simp_all add: loads_error_def)

lemma scan_fuel_aux:
  "(\<forall>d s e. 2 * length s < n \<longrightarrow> scan_once py d n s = Inl e \<longrightarrow> loads_error e) \<and>
   (\<forall>d s e. 2 * length s + 1 < n \<longrightarrow> array_items py d n s = Inl e \<longrightarrow> loads_error e) \<and>
   (\<forall>d s e. 2 * length s + 1 < n \<longrightarrow> object_items py d n s = Inl e \<longrightarrow> loads_error e)"
proof (induction n)
  case 0
  show ?case by simp
next
  case (Suc n)
  then have IH1: "\<And>d s e. scan_once py d n s = Inl e \<Longrightarrow> 2 * length s < n \<Longrightarrow> loads_error e"
    and IH2: "\<And>d s e. array_items py d n s = Inl e \<Longrightarrow> 2 * length s + 1 < n \<Longrightarrow> loads_error e"
    and IH3: "\<And>d s e. object_items py d n s = Inl e \<Longrightarrow> 2 * length s + 1 < n \<Longrightarrow> loads_error e"
    by blast+
  have 1: "loads_error e" if "scan_once py d (Suc n) s = Inl e" "2 * length s < Suc n" for d s e
  proof (cases s)
    case Nil with that show ?thesis by simp
  next
    case (Cons c s')
    have obj: "loads_error e" if "skip_ws s' = c' # r" "object_items py d' n r = Inl e" for c' d' r e
      using skip_ws_Cons [OF that(1)] \<open>2 * length s < Suc n\<close> Cons
      by (intro IH3 [OF that(2)]) simp
    have arr: "loads_error e" if "skip_ws s' = c' # r" "array_items py d' n (c' # r) = Inl e" for c' d' r e
      using skip_ws_Cons [OF that(1)] \<open>2 * length s < Suc n\<close> Cons
      by (intro IH2 [OF that(2)]) simp
    show ?thesis
      using that Cons
      by (auto split: if_splits sum.splits list.splits option.splits
          dest!: scanstring_error int_of_str_error dest: obj arr)
  qed
  have 2: "loads_error e" if "array_items py d (Suc n) s = Inl e" "2 * length s + 1 < Suc n" for d s e
  proof (cases "scan_once py d n s")
    case (Inl e')
    with that IH1 [OF Inl] show ?thesis by simp
  next
    case (Inr p)
    obtain v r where p: "p = (v, r)" by (cases p)
    from Inr p have lt: "length r < length s" by (auto dest: scan_once_shorter)
    have rec: "loads_error e" if "skip_ws r = c' # r'" "array_items py d n (skip_ws r') = Inl e" for c' r' e
      using skip_ws_Cons [OF that(1)] lt length_skip_ws [of r'] \<open>2 * length s + 1 < Suc n\<close>
      by (intro IH2 [OF that(2)]) simp
    show ?thesis
      using that Inr p
      by (auto split: if_splits sum.splits list.splits dest: rec)
  qed
  have 3: "loads_error e" if "object_items py d (Suc n) s = Inl e" "2 * length s + 1 < Suc n" for d s e
  proof (cases "scanstring s")
    case (Inl e')
    with that scanstring_error [OF Inl] show ?thesis by simp
  next
    case (Inr p)
    obtain k r where p: "p = (k, r)" by (cases p)
    from Inr p have lt: "length r < length s" by (auto dest: scanstring_shorter)
    show ?thesis
    proof (cases "skip_ws r")
      case Nil with that Inr p show ?thesis by simp
    next
      case (Cons colon r')
      have lt': "length r' < length r" using skip_ws_Cons [OF Cons] .
      show ?thesis
      proof (cases "scan_once py d n (skip_ws r')")
        case (Inl e')
        have "loads_error e'"
          using lt lt' length_skip_ws [of r'] \<open>2 * length s + 1 < Suc n\<close>
          by (intro IH1 [OF Inl]) simp
        with that Inr p Cons Inl show ?thesis by (simp split: if_splits)
      next
        case Inr2: (Inr q)
        obtain v r'' where q: "q = (v, r'')" by (cases q)
        from Inr2 q have lt'': "length r'' < length (skip_ws r')" by (auto dest: scan_once_shorter)
        have rec: "loads_error e"
          if "skip_ws r'' = c' # r3" "skip_ws r3 = c'' # r4" "object_items py d n r4 = Inl e" for c' c'' r3 r4 e
          using skip_ws_Cons [OF that(1)] skip_ws_Cons [OF that(2)] lt lt' lt'' length_skip_ws [of r']
            \<open>2 * length s + 1 < Suc n\<close>
          by (intro IH3 [OF that(3)]) simp
        show ?thesis
          using that Inr p Cons Inr2 q
          by (auto split: if_splits sum.splits list.splits dest: rec)
      qed
    qed
  qed
  from 1 2 3 show ?case by blast
qed

lemma json_loads_error: "json_loads py s = Inl e \<Longrightarrow> loads_error e"
proof -
  assume a: "json_loads py s = Inl e"
  have "2 * length (skip_ws s) < 2 * length s + 2" using length_skip_ws [of s] by simp
  then have "scan_once py d (2 * length s + 2) (skip_ws s) = Inl e' \<Longrightarrow> loads_error e'" for d e'
    using scan_fuel_aux [of "2 * length s + 2" py] by blast
  with a show ?thesis
    by (auto simp: json_loads_def split: if_splits sum.splits)
qed

lemma json_loads_fuel: "json_loads py s \<noteq> Inl OutOfFuel"
  using json_loads_error [of py s OutOfFuel] by auto

section \<open>The loop of the extractor\<close>

lemma process_block_skip:
  "\<not> looks_like_json (block_text soup block) \<Longrightarrow> process_block py soup block saved w = (Inr saved, w)"
  by (simp add: process_block_def block_text_def looks_like_json_def)

lemma process_block_error:
  "json_loads py (block_text soup block) = Inl JSONDecodeError \<Longrightarrow>
   process_block py soup block saved w = (Inr saved, w)"
  by (simp add: process_block_def block_text_def Let_def)

lemma process_block_raise:
  "looks_like_json (block_text soup block) \<Longrightarrow> json_loads py (block_text soup block) = Inl e \<Longrightarrow>
   e \<noteq> JSONDecodeError \<Longrightarrow> process_block py soup block saved w = (Inl e, w)"
  by (simp add: process_block_def block_text_def looks_like_json_def Let_def)

lemma process_block_save:
  "looks_like_json (block_text soup block) \<Longrightarrow> json_loads py (block_text soup block) = Inr parsed \<Longrightarrow>
   process_block py soup block saved w =
     save_example py (file_name py soup block saved) (json_dumps py parsed) saved w"
  by (auto simp: process_block_def block_text_def looks_like_json_def Let_def file_name_def)

lemma save_example_Written:
  "fs_write py (writes w) fname content = Written \<Longrightarrow>
   print_error py (0x2713 # ustr '' Saved '' @ fname) = None \<Longrightarrow>
   save_example py fname content saved w =
     (Inr (saved + 1),
      w\<lparr>writes := writes w @ [(fname, content)],
        stdout := stdout w @ [0x2713 # ustr '' Saved '' @ fname]\<rparr>)"
  by (simp add: save_example_def)

lemma save_example_reliable:
  "reliable py \<Longrightarrow>
   save_example py fname content saved w =
     (Inr (saved + 1),
      w\<lparr>writes := writes w @ [(fname, content)],
        stdout := stdout w @ [0x2713 # ustr '' Saved '' @ fname]\<rparr>)"
  by (simp add: save_example_def reliable_def)

lemma save_example_Inr:
  "save_example py fname content saved w = (Inr n, w') \<Longrightarrow>
   n = saved + 1 \<and>
   w' = w\<lparr>writes := writes w @ [(fname, content)],
          stdout := stdout w @ [0x2713 # ustr '' Saved '' @ fname]\<rparr>"
  by (auto simp: save_example_def split: write_result.splits option.splits)

lemma save_example_Inl:
  "save_example py fname content saved w = (Inl e, w') \<Longrightarrow>
   writes w' = writes w \<or> (\<exists>left. writes w' = writes w @ [(fname, left)])"
  by (auto simp: save_example_def split: write_result.splits option.splits)

lemma process_block_cases:
  "process_block py soup block saved w =
     (if saved_block py soup block
      then save_example py (fst (saved_file py soup (saved, block)))
             (snd (saved_file py soup (saved, block))) saved w
      else if raising_block py soup block
      then (Inl (projl (json_loads py (block_text soup block))), w)
      else (Inr saved, w))"
proof (cases "looks_like_json (block_text soup block)")
  case False
  then show ?thesis by (simp add: process_block_skip saved_block_def raising_block_def)
next
  case True
  show ?thesis
  proof (cases "json_loads py (block_text soup block)")
    case (Inl e)
    show ?thesis
    proof (cases "e = JSONDecodeError")
      case True
      with Inl show ?thesis
        by (simp add: process_block_error saved_block_def raising_block_def)
    next
      case False
      with Inl True show ?thesis
        by (simp add: process_block_raise saved_block_def raising_block_def)
    qed
  next
    case (Inr parsed)
    with True show ?thesis by (simp add: process_block_save saved_block_def saved_file_def)
  qed
qed

text \<open>
  A run of the loop that ends without an exception has saved every block that parses,
  in the order of the blocks.
\<close>

lemma extract_loop_ok:
  "extract_loop py soup blocks saved w = (Inr n, w') \<Longrightarrow>
   n = saved + length (filter (saved_block py soup) blocks) \<and>
   w' = w\<lparr>writes := writes w @
             map (saved_file py soup) (enumerate saved (filter (saved_block py soup) blocks)),
           stdout := stdout w @
             map (\<lambda>kb. 0x2713 # ustr '' Saved '' @ file_name py soup (snd kb) (fst kb))
               (enumerate saved (filter (saved_block py soup) blocks))\<rparr>"
proof (induction blocks arbitrary: saved w)
  case Nil
  then show ?case by simp
next
  case (Cons b blocks)
  show ?case
  proof (cases "process_block py soup b saved w")
    case (Pair res w1)
    show ?thesis
    proof (cases res)
      case (Inl e)
      with Pair Cons.prems show ?thesis by simp
    next
      case (Inr m)
      with Pair Cons.prems have rest: "extract_loop py soup blocks m w1 = (Inr n, w')" by simp
      note IH = Cons.IH [OF rest]
      show ?thesis
      proof (cases "saved_block py soup b")
        case True
        with Pair Inr have "save_example py (fst (saved_file py soup (saved, b)))
             (snd (saved_file py soup (saved, b))) saved w = (Inr m, w1)"
          by (simp add: process_block_cases)
        from save_example_Inr [OF this] have "m = saved + 1"
          and "w1 = w\<lparr>writes := writes w @ [saved_file py soup (saved, b)],
             stdout := stdout w @ [0x2713 # ustr '' Saved '' @ file_name py soup b saved]\<rparr>"
          by (simp_all add: saved_file_def)
        with IH True show ?thesis by simp
      next
        case False
        with Pair Inr have "m = saved" "w1 = w"
          by (simp_all add: process_block_cases split: if_splits)
        with IH False show ?thesis by simp
      qed
    qed
  qed
qed

text \<open>
  Whatever the end of a run of the loop: the paths that it has written to are the paths
  computed for the first blocks that parse, in their order.
\<close>

lemma extract_loop_paths:
  "\<exists>ws m. writes (snd (extract_loop py soup blocks saved w)) = writes w @ ws \<and>
     map fst ws =
       take m (map (\<lambda>kb. file_name py soup (snd kb) (fst kb))
                 (enumerate saved (filter (saved_block py soup) blocks)))"
proof (induction blocks arbitrary: saved w)
  case Nil
  show ?case by simp
next
  case (Cons b blocks)
  let ?name = "\<lambda>kb. file_name py soup (snd kb) (fst kb)"
  show ?case
  proof (cases "saved_block py soup b")
    case False
    show ?thesis
    proof (cases "raising_block py soup b")
      case True
      with False have "writes (snd (extract_loop py soup (b # blocks) saved w)) = writes w @ []"
        by (simp add: process_block_cases)
      moreover have "map fst [] = take 0 (map ?name (enumerate saved (filter (saved_block py soup) (b # blocks))))"
        by simp
      ultimately show ?thesis by blast
    next
      case nr: False
      with False have "extract_loop py soup (b # blocks) saved w = extract_loop py soup blocks saved w"
        by (simp add: process_block_cases)
      with Cons.IH [of saved w] False show ?thesis by simp
    qed
  next
    case True
    let ?f = "file_name py soup b saved"
    let ?c = "snd (saved_file py soup (saved, b))"
    have pb: "process_block py soup b saved w = save_example py ?f ?c saved w"
      using True by (simp add: process_block_cases saved_file_def)
    have en: "map ?name (enumerate saved (filter (saved_block py soup) (b # blocks)))
        = ?f # map ?name (enumerate (Suc saved) (filter (saved_block py soup) blocks))"
      using True by simp
    show ?thesis
    proof (cases "save_example py ?f ?c saved w")
      case (Pair res w1)
      show ?thesis
      proof (cases res)
        case (Inl e)
        with Pair pb have run: "extract_loop py soup (b # blocks) saved w = (Inl e, w1)" by simp
        from save_example_Inl [OF Pair [unfolded Inl]]
        consider "writes w1 = writes w" | left where "writes w1 = writes w @ [(?f, left)]" by blast
        then show ?thesis
        proof cases
          case 1
          then have "writes (snd (extract_loop py soup (b # blocks) saved w)) = writes w @ []"
            unfolding run by simp
          moreover have "map fst [] = take 0 (map ?name (enumerate saved (filter (saved_block py soup) (b # blocks))))"
            by simp
          ultimately show ?thesis by blast
        next
          case 2
          then have "writes (snd (extract_loop py soup (b # blocks) saved w)) = writes w @ [(?f, left)]"
            unfolding run by simp
          moreover have "map fst [(?f, left)]
              = take 1 (map ?name (enumerate saved (filter (saved_block py soup) (b # blocks))))"
            unfolding en by simp
          ultimately show ?thesis by blast
        qed
      next
        case (Inr n)
        from save_example_Inr [OF Pair [unfolded Inr]]
        have n: "n = Suc saved" and w1: "writes w1 = writes w @ [(?f, ?c)]" by simp_all
        from Pair Inr pb n
        have run: "extract_loop py soup (b # blocks) saved w = extract_loop py soup blocks (Suc saved) w1"
          by simp
        from Cons.IH [of "Suc saved" w1] obtain ws m where
          ws: "writes (snd (extract_loop py soup blocks (Suc saved) w1)) = writes w1 @ ws"
          and m: "map fst ws = take m (map ?name (enumerate (Suc saved) (filter (saved_block py soup) blocks)))"
          by blast
        have "writes (snd (extract_loop py soup (b # blocks) saved w)) = writes w @ ((?f, ?c) # ws)"
          unfolding run ws w1 by simp
        moreover have "map fst ((?f, ?c) # ws)
            = take (Suc m) (map ?name (enumerate saved (filter (saved_block py soup) (b # blocks))))"
          unfolding en by (simp add: m)
        ultimately show ?thesis by blast
      qed
    qed
  qed
qed

lemma extract_soup_writes:
  "writes (snd (extract_soup py soup w)) = writes (snd (extract_loop py soup (select soup) 0 w))"
  by (simp add: extract_soup_def split: prod.splits sum.splits option.splits)

lemma extract_soup_paths:
  "\<exists>m. map fst (new_writes w (snd (extract_soup py soup w))) =
     take m (map (\<lambda>kb. file_name py soup (snd kb) (fst kb)) (enumerate 0 (saved_blocks py soup)))"
  using extract_loop_paths [of py soup "select soup" 0 w]
  by (auto simp: extract_soup_writes new_writes_def saved_blocks_def)

lemma extract_soup_ok:
  assumes "fst (extract_soup py soup w) = Inr ()"
  shows "extract_soup py soup w =
     (Inr (),
      w\<lparr>writes := writes w @
           map (saved_file py soup) (enumerate 0 (saved_blocks py soup)),
        stdout := stdout w @
           map (\<lambda>kb. 0x2713 # ustr '' Saved '' @ file_name py soup (snd kb) (fst kb))
             (enumerate 0 (saved_blocks py soup))
           @ [total_line (length (saved_blocks py soup))]\<rparr>)"
proof (cases "extract_loop py soup (select soup) 0 w")
  case (Pair res w1)
  show ?thesis
  proof (cases res)
    case (Inl e)
    with Pair assms show ?thesis by (simp add: extract_soup_def)
  next
    case (Inr n)
    from extract_loop_ok [OF Pair [unfolded Inr]]
    have n: "n = length (saved_blocks py soup)"
      and w1: "w1 = w\<lparr>writes := writes w @
             map (saved_file py soup) (enumerate 0 (saved_blocks py soup)),
           stdout := stdout w @
             map (\<lambda>kb. 0x2713 # ustr '' Saved '' @ file_name py soup (snd kb) (fst kb))
               (enumerate 0 (saved_blocks py soup))\<rparr>"
      by (simp_all add: saved_blocks_def)
    from assms Pair Inr have "print_error py (total_line n) = None"
      by (simp add: extract_soup_def split: option.splits)
    with Pair Inr show ?thesis by (simp add: extract_soup_def n w1)
  qed
qed

lemma new_writes_extract_soup:
  "fst (extract_soup py soup w) = Inr () \<Longrightarrow>
   new_writes w (snd (extract_soup py soup w)) =
     map (saved_file py soup) (enumerate 0 (saved_blocks py soup))"
  by (simp add: extract_soup_ok new_writes_def)

text \<open>
  On a platform where no write and no \<open>print\<close> fails, and for blocks none of which
  makes \<open>json.loads\<close> raise an exception that is not caught, the run ends without an
  exception.
\<close>

lemma extract_loop_run:
  "reliable py \<Longrightarrow> \<forall>b \<in> set blocks. \<not> raising_block py soup b \<Longrightarrow>
   extract_loop py soup blocks saved w =
     (Inr (saved + length (filter (saved_block py soup) blocks)),
      w\<lparr>writes := writes w @
           map (saved_file py soup)
             (enumerate saved (filter (saved_block py soup) blocks)),
        stdout := stdout w @
           map (\<lambda>kb. 0x2713 # ustr '' Saved '' @ file_name py soup (snd kb) (fst kb))
             (enumerate saved (filter (saved_block py soup) blocks))\<rparr>)"
proof (induction blocks arbitrary: saved w)
  case Nil
  show ?case by simp
next
  case (Cons b blocks)
  from Cons.prems have r: "reliable py" and nb: "\<not> raising_block py soup b"
    and rest: "\<forall>b \<in> set blocks. \<not> raising_block py soup b" by simp_all
  note IH = Cons.IH [OF r rest]
  show ?case
  proof (cases "saved_block py soup b")
    case False
    with nb show ?thesis by (simp add: process_block_cases IH)
  next
    case True
    then show ?thesis
      by (simp add: process_block_cases save_example_reliable [OF r] IH saved_file_def)
  qed
qed

lemma extract_soup_run:
  "reliable py \<Longrightarrow> \<forall>b \<in> set (select soup). \<not> raising_block py soup b \<Longrightarrow>
   extract_soup py soup w =
     (Inr (),
      w\<lparr>writes := writes w @
           map (saved_file py soup) (enumerate 0 (saved_blocks py soup)),
        stdout := stdout w @
           map (\<lambda>kb. 0x2713 # ustr '' Saved '' @ file_name py soup (snd kb) (fst kb))
             (enumerate 0 (saved_blocks py soup))
           @ [total_line (length (saved_blocks py soup))]\<rparr>)"
  by (simp add: extract_soup_def extract_loop_run saved_blocks_def reliable_def)

lemma reliable_py0: "reliable py0"
  by (simp add: reliable_def py0_def)

section \<open>Single blocks\<close>

lemmas text_defs = block_text_def looks_like_json_def strip_def strip_chars_def is_space_def
  ustr_def startswith_def descendants_def

lemmas scan_once_numeral = scan_once.simps(2) [of _ _ "pred_numeral k", folded numeral_eq_Suc] for k
lemmas array_items_numeral = array_items.simps(2) [of _ _ "pred_numeral k", folded numeral_eq_Suc] for k
lemmas object_items_numeral = object_items.simps(2) [of _ _ "pred_numeral k", folded numeral_eq_Suc] for k

lemmas loads_defs = json_loads_def skip_ws_def is_json_ws_def cons_chunk_def
  scan_once_numeral array_items_numeral object_items_numeral
  match_number_def match_int_def match_frac_def match_exp_def match_digits1_def is_digit_def
  dict_of_pairs_def int_of_str_def int_value_def nat_of_str_def

lemmas replicate_numeral = replicate.simps(2) [of "pred_numeral k", folded numeral_eq_Suc] for k

lemmas dumps_defs = json_dumps_def newline_indent_def replicate_numeral encode_basestring_ascii_def escape_char_def
  str_of_int_def str_of_nat.simps

lemmas name_defs = clean_name_def re_sub_def lower_def ascii_lower_def name_char_def hyphen_def
  os_path_join_def OUT_DIR_def file_name_def find_previous_def is_heading_def

text \<open>
  C2: a candidate block whose trimmed text starts with neither a brace nor a bracket
  is passed over. The loop body returns the counter and the world as they were, no file
  written, and the loop goes on with the blocks that follow.
\<close>

theorem non_json_block_discarded:
  "\<not> looks_like_json (block_text soup block) \<Longrightarrow>
   process_block py soup block saved w = (Inr saved, w) \<and>
   extract_loop py soup (block # blocks) saved w = extract_loop py soup blocks saved w"
  by (simp add: process_block_skip)

theorem non_json_block_discarded_witness:
  "\<not> looks_like_json (block_text [Element (ustr ''pre'') [] [Text (ustr ''not json at all'')]] 0) \<and>
   process_block py0 [Element (ustr ''pre'') [] [Text (ustr ''not json at all'')]] 0 0 no_output
     = (Inr 0, no_output) \<and>
   extract_loop py0 [Element (ustr ''pre'') [] [Text (ustr ''not json at all'')]] [0, 0] 0 no_output
     = extract_loop py0 [Element (ustr ''pre'') [] [Text (ustr ''not json at all'')]] [0] 0 no_output"
proof -
  have h: "\<not> looks_like_json (block_text [Element (ustr ''pre'') [] [Text (ustr ''not json at all'')]] 0)"
    by (simp add: text_defs)
  from non_json_block_discarded [OF h] h show ?thesis by blast
qed

subsection \<open>Texts that the interpreter refuses\<close>

lemma scan_once_deep:
  "d < k \<Longrightarrow> 2 * k < n \<Longrightarrow> scan_once py d n (replicate k 91) = Inl RecursionError"
proof (induction d arbitrary: k n)
  case 0
  then obtain k' n' where "k = Suc k'" "n = Suc n'" by (cases k; cases n) auto
  then show ?case by simp
next
  case (Suc d)
  from Suc.prems have "2 \<le> k" "2 \<le> n" by simp_all
  then obtain k' n' where k: "k = Suc (Suc k')" and n: "n = Suc (Suc n')"
    by (metis add_2_eq_Suc le_Suc_ex)
  have IH: "scan_once py d n' (replicate (Suc k') 91) = Inl RecursionError"
    using Suc.prems k n by (intro Suc.IH) simp_all
  show ?case unfolding k n using IH by (simp add: skip_ws_def is_json_ws_def)
qed

lemma loads_deep:
  "recursion_headroom py < 1999 \<Longrightarrow> json_loads py (replicate 2000 91) = Inl RecursionError"
proof -
  assume h: "recursion_headroom py < 1999"
  have "scan_once py (Suc (recursion_headroom py)) 4002 (replicate 2000 91) = Inl RecursionError"
    using h by (intro scan_once_deep) simp_all
  then show ?thesis
    by (simp add: json_loads_def skip_ws_def is_json_ws_def startswith_def)
qed

lemma loads_long_int:
  assumes "640 \<le> k" "0 < int_max_str_digits py" "int_max_str_digits py \<le> k"
  shows "json_loads py (91 # 49 # replicate k 49 @ [93]) = Inl ValueError"
proof -
  have d: "is_digit 49" "\<not> is_digit 93" by (simp_all add: is_digit_def)
  have tw: "takeWhile is_digit (replicate k 49 @ [93]) = replicate k 49"
    by (subst takeWhile_append2) (auto simp: d)
  have dw: "dropWhile is_digit (replicate k 49 @ [93]) = [93]"
    by (subst dropWhile_append2) (auto simp: d)
  have m: "match_number (49 # replicate k 49 @ [93]) = Some (49 # replicate k 49, [], [], [93])"
    using d by (simp add: match_number_def match_int_def match_frac_def match_exp_def tw dw)
  have i: "int_of_str py (49 # replicate k 49) = Inl ValueError"
    using assms d by (simp add: int_of_str_def)
  have a: "scan_once py d (Suc n) (49 # replicate k 49 @ [93]) = Inl ValueError" for d n
    by (simp add: m i startswith_def ustr_def)
  have b: "array_items py d (Suc (Suc n)) (49 # replicate k 49 @ [93]) = Inl ValueError" for d n
    by (simp only: array_items.simps a sum.case)
  have "scan_once py (Suc d) (Suc (Suc (Suc n))) (91 # 49 # replicate k 49 @ [93]) = Inl ValueError" for d n
    by (simp add: skip_ws_def is_json_ws_def b del: array_items.simps)
  then show ?thesis
    by (simp add: json_loads_def skip_ws_def is_json_ws_def startswith_def del: scan_once.simps)
qed

text \<open>
  C3 as stated fails. A text that starts with a bracket can make \<open>json.loads\<close> raise
  an exception that is no \<open>JSONDecodeError\<close>, and this one the loop does not catch: the
  run ends with it. Two thousand opening brackets are nested deeper than the interpreter
  has room for, and the first of two blocks with this text ends the run with
  \<open>RecursionError\<close> before the second block, whose text parses, is looked at. An
  integer of 4301 digits in brackets is more than \<open>int\<close> converts, and ends the run
  with \<open>ValueError\<close>.
\<close>

theorem interpreter_limit_aborts_run:
  "looks_like_json (block_text
     [Element (ustr ''pre'') [] [Text (replicate 2000 (ord CHR ''[''))],
      Element (ustr ''pre'') [] [Text (ustr ''[]'')]] 0) \<and>
   json_loads py0 (block_text
     [Element (ustr ''pre'') [] [Text (replicate 2000 (ord CHR ''[''))],
      Element (ustr ''pre'') [] [Text (ustr ''[]'')]] 0) = Inl RecursionError \<and>
   saved_block py0
     [Element (ustr ''pre'') [] [Text (replicate 2000 (ord CHR ''[''))],
      Element (ustr ''pre'') [] [Text (ustr ''[]'')]] 2 \<and>
   extract_soup py0
     [Element (ustr ''pre'') [] [Text (replicate 2000 (ord CHR ''[''))],
      Element (ustr ''pre'') [] [Text (ustr ''[]'')]] no_output
     = (Inl RecursionError, no_output) \<and>
   looks_like_json (block_text
     [Element (ustr ''code'') []
        [Text (ustr ''[1'' @ replicate 4300 (ord CHR ''1'') @ ustr '']'')]] 0) \<and>
   extract_soup py0
     [Element (ustr ''code'') []
        [Text (ustr ''[1'' @ replicate 4300 (ord CHR ''1'') @ ustr '']'')]] no_output
     = (Inl ValueError, no_output)"
proof -
  let ?deep = "[Element (ustr ''pre'') [] [Text (replicate 2000 (ord CHR ''[''))],
      Element (ustr ''pre'') [] [Text (ustr ''[]'')]]"
  let ?long = "[Element (ustr ''code'') []
        [Text (ustr ''[1'' @ replicate 4300 (ord CHR ''1'') @ ustr '']'')]]"
  have t0: "block_text ?deep 0 = replicate 2000 91"
    by (simp add: block_text_def descendants_def strip_def strip_chars_def is_space_def)
  have t2: "block_text ?deep 2 = ustr ''[]''" by (simp add: text_defs)
  have l0: "looks_like_json (block_text ?deep 0)"
    unfolding t0 by (simp add: looks_like_json_def startswith_def ustr_def)
  have e0: "json_loads py0 (block_text ?deep 0) = Inl RecursionError"
    unfolding t0 by (rule loads_deep) (simp add: py0_def)
  have s2: "saved_block py0 ?deep 2"
    unfolding saved_block_def t2
    by (simp add: looks_like_json_def startswith_def ustr_def)
      (simp add: loads_defs startswith_def)
  have sd: "select ?deep = [0, 2]"
    by (simp add: select_def descendants_def matches_selectors_def ustr_def upt_rec_numeral)
  have p0: "process_block py0 ?deep 0 0 no_output = (Inl RecursionError, no_output)"
    using process_block_raise [OF l0 e0] by simp
  have r0: "extract_soup py0 ?deep no_output = (Inl RecursionError, no_output)"
    unfolding extract_soup_def sd extract_loop.simps p0 by simp
  have t1: "block_text ?long 0 = 91 # 49 # replicate 4300 49 @ [93]"
    by (simp add: block_text_def descendants_def strip_def strip_chars_def is_space_def ustr_def)
  have l1: "looks_like_json (block_text ?long 0)"
    unfolding t1 by (simp add: looks_like_json_def startswith_def ustr_def)
  have e1: "json_loads py0 (block_text ?long 0) = Inl ValueError"
    unfolding t1 by (rule loads_long_int) (simp_all add: py0_def)
  have sl: "select ?long = [0]"
    by (simp add: select_def descendants_def matches_selectors_def ustr_def)
  have p1: "process_block py0 ?long 0 0 no_output = (Inl ValueError, no_output)"
    using process_block_raise [OF l1 e1] by simp
  have r1: "extract_soup py0 ?long no_output = (Inl ValueError, no_output)"
    unfolding extract_soup_def sl extract_loop.simps p1 by simp
  from l0 e0 s2 r0 l1 r1 show ?thesis by blast
qed

text \<open>
  C3, amended. A candidate block whose trimmed text starts with a brace or a bracket and
  on which \<open>json.loads\<close> raises \<open>JSONDecodeError\<close> is passed over: no file is
  written, the counter stays, and the loop goes on with the blocks that follow. When
  \<open>json.loads\<close> raises another exception, which is \<open>RecursionError\<close> or
  \<open>ValueError\<close>, the loop ends with it at this block, and the block writes no file
  either.
\<close>

theorem unparsable_block_skipped:
  "looks_like_json (block_text soup block) \<Longrightarrow>
   json_loads py (block_text soup block) = Inl e \<Longrightarrow>
   (e = JSONDecodeError \<longrightarrow>
      process_block py soup block saved w = (Inr saved, w) \<and>
      extract_loop py soup (block # blocks) saved w = extract_loop py soup blocks saved w) \<and>
   (e \<noteq> JSONDecodeError \<longrightarrow>
      (e = RecursionError \<or> e = ValueError) \<and>
      process_block py soup block saved w = (Inl e, w) \<and>
      extract_loop py soup (block # blocks) saved w = (Inl e, w))"
proof (intro conjI impI)
  assume l: "looks_like_json (block_text soup block)"
    and e: "json_loads py (block_text soup block) = Inl e"
  {
    assume "e = JSONDecodeError"
    with e show p: "process_block py soup block saved w = (Inr saved, w)"
      by (simp add: process_block_error)
    then show "extract_loop py soup (block # blocks) saved w = extract_loop py soup blocks saved w"
      by simp
  }
  {
    assume n: "e \<noteq> JSONDecodeError"
    from json_loads_error [OF e] n show "e = RecursionError \<or> e = ValueError"
      by (simp add: loads_error_def)
    from process_block_raise [OF l e n]
    show p: "process_block py soup block saved w = (Inl e, w)" .
    then show "extract_loop py soup (block # blocks) saved w = (Inl e, w)" by simp
  }
qed

lemma loads_oops: "json_loads py (ustr ''[oops]'') = Inl JSONDecodeError"
  by (simp add: loads_defs ustr_def startswith_def)

theorem unparsable_block_skipped_witness:
  "looks_like_json (block_text [Element (ustr ''code'') [] [Text (ustr ''[oops]'')]] 0) \<and>
   json_loads py0 (block_text [Element (ustr ''code'') [] [Text (ustr ''[oops]'')]] 0)
     = Inl JSONDecodeError \<and>
   process_block py0 [Element (ustr ''code'') [] [Text (ustr ''[oops]'')]] 0 0 no_output
     = (Inr 0, no_output) \<and>
   extract_loop py0 [Element (ustr ''code'') [] [Text (ustr ''[oops]'')]] [0, 0] 0 no_output
     = extract_loop py0 [Element (ustr ''code'') [] [Text (ustr ''[oops]'')]] [0] 0 no_output \<and>
   looks_like_json (block_text [Element (ustr ''code'') [] [Text (replicate 2000 (ord CHR ''[''))]] 0) \<and>
   json_loads py0 (block_text [Element (ustr ''code'') [] [Text (replicate 2000 (ord CHR ''[''))]] 0)
     = Inl RecursionError \<and>
   extract_loop py0 [Element (ustr ''code'') [] [Text (replicate 2000 (ord CHR ''[''))]] [0, 0] 0 no_output
     = (Inl RecursionError, no_output)"
proof -
  let ?bad = "[Element (ustr ''code'') [] [Text (ustr ''[oops]'')]]"
  let ?deep = "[Element (ustr ''code'') [] [Text (replicate 2000 (ord CHR ''[''))]]"
  have t: "block_text ?bad 0 = ustr ''[oops]''"
    by (simp add: text_defs)
  have h1: "looks_like_json (block_text ?bad 0)"
    unfolding t by (simp add: looks_like_json_def ustr_def startswith_def)
  have h2: "json_loads py0 (block_text ?bad 0) = Inl JSONDecodeError"
    unfolding t by (rule loads_oops)
  have t': "block_text ?deep 0 = replicate 2000 91"
    by (simp add: block_text_def descendants_def strip_def strip_chars_def is_space_def)
  have h3: "looks_like_json (block_text ?deep 0)"
    unfolding t' by (simp add: looks_like_json_def startswith_def ustr_def)
  have h4: "json_loads py0 (block_text ?deep 0) = Inl RecursionError"
    unfolding t' by (rule loads_deep) (simp add: py0_def)
  from unparsable_block_skipped [OF h1 h2, of 0 no_output "[0]"]
    unparsable_block_skipped [OF h3 h4, of 0 no_output "[0]"] h1 h2 h3 h4
  show ?thesis by simp
qed

lemma os_path_join_OUT_DIR:
  "\<not> startswith b (ustr ''/'') \<Longrightarrow> os_path_join OUT_DIR b = ustr ''src/test/resources/strava/'' @ b"
  by (simp add: os_path_join_def OUT_DIR_def ustr_def)

text \<open>
  C8: when a heading is found before a block that parses and its text normalises to the
  empty string, the base name is empty: the block is saved as \<open>.json\<close> in the output
  directory, and the name \<open>example-<n>\<close> is not used. Saving is the write and the
  line of \<open>save_example\<close>; where the file system takes the write and the standard
  output the line, the file is there and the counter is one more.
\<close>

theorem empty_heading_gives_dot_json:
  "find_previous soup block = Some header \<Longrightarrow>
   clean_name (unicode_lower py) (get_text header) = [] \<Longrightarrow>
   looks_like_json (block_text soup block) \<Longrightarrow>
   json_loads py (block_text soup block) = Inr parsed \<Longrightarrow>
   process_block py soup block saved w =
     save_example py (ustr ''src/test/resources/strava/.json'') (json_dumps py parsed) saved w \<and>
   (fs_write py (writes w) (ustr ''src/test/resources/strava/.json'') (json_dumps py parsed) = Written \<and>
    print_error py (0x2713 # ustr '' Saved src/test/resources/strava/.json'') = None \<longrightarrow>
    process_block py soup block saved w =
      (Inr (saved + 1),
       w\<lparr>writes := writes w @ [(ustr ''src/test/resources/strava/.json'', json_dumps py parsed)],
         stdout := stdout w @ [0x2713 # ustr '' Saved src/test/resources/strava/.json'']\<rparr>))"
proof -
  assume h: "find_previous soup block = Some header"
    "clean_name (unicode_lower py) (get_text header) = []"
    and l: "looks_like_json (block_text soup block)"
    and p: "json_loads py (block_text soup block) = Inr parsed"
  have f: "file_name py soup block saved = ustr ''src/test/resources/strava/.json''"
    using h by (simp add: file_name_def os_path_join_def OUT_DIR_def ustr_def startswith_def)
  have s: "process_block py soup block saved w =
     save_example py (ustr ''src/test/resources/strava/.json'') (json_dumps py parsed) saved w"
    unfolding process_block_save [OF l p] f ..
  have "save_example py (ustr ''src/test/resources/strava/.json'') (json_dumps py parsed) saved w =
      (Inr (saved + 1),
       w\<lparr>writes := writes w @ [(ustr ''src/test/resources/strava/.json'', json_dumps py parsed)],
         stdout := stdout w @ [0x2713 # ustr '' Saved src/test/resources/strava/.json'']\<rparr>)"
    if "fs_write py (writes w) (ustr ''src/test/resources/strava/.json'') (json_dumps py parsed) = Written"
      "print_error py (0x2713 # ustr '' Saved src/test/resources/strava/.json'') = None"
    using that by (simp add: save_example_def ustr_def)
  with s show ?thesis by simp
qed

lemma loads_empty_list: "json_loads py (ustr ''[]'') = Inr (JList [])"
  by (simp add: loads_defs ustr_def startswith_def)

lemma dumps_empty_list: "json_dumps py (JList []) = ustr ''[]''"
  by (simp add: json_dumps_def)

theorem empty_heading_gives_dot_json_witness:
  "find_previous [Element (ustr ''h2'') [] [Text (ustr ''!?'')], Element (ustr ''pre'') [] [Text (ustr ''[]'')]] 2
     = Some (Element (ustr ''h2'') [] [Text (ustr ''!?'')]) \<and>
   clean_name (unicode_lower py0) (get_text (Element (ustr ''h2'') [] [Text (ustr ''!?'')])) = [] \<and>
   process_block py0
       [Element (ustr ''h2'') [] [Text (ustr ''!?'')], Element (ustr ''pre'') [] [Text (ustr ''[]'')]]
       2 0 no_output =
     (Inr 1,
      \<lparr>writes = [(ustr ''src/test/resources/strava/.json'', ustr ''[]'')],
       stdout = [0x2713 # ustr '' Saved src/test/resources/strava/.json'']\<rparr>)"
proof -
  let ?soup = "[Element (ustr ''h2'') [] [Text (ustr ''!?'')], Element (ustr ''pre'') [] [Text (ustr ''[]'')]]"
  have t: "block_text ?soup 2 = ustr ''[]''"
    by (simp add: text_defs)
  have h1: "find_previous ?soup 2 = Some (Element (ustr ''h2'') [] [Text (ustr ''!?'')])"
    by (simp add: find_previous_def descendants_def is_heading_def ustr_def)
  have h2: "clean_name (unicode_lower py0) (get_text (Element (ustr ''h2'') [] [Text (ustr ''!?'')])) = []"
    by (simp add: name_defs strip_def strip_chars_def is_space_def ustr_def)
  have h3: "looks_like_json (block_text ?soup 2)"
    unfolding t by (simp add: looks_like_json_def ustr_def startswith_def)
  have h4: "json_loads py0 (block_text ?soup 2) = Inr (JList [])"
    unfolding t by (rule loads_empty_list)
  have h5: "fs_write py0 (writes no_output) (ustr ''src/test/resources/strava/.json'')
       (json_dumps py0 (JList [])) = Written"
    "print_error py0 (0x2713 # ustr '' Saved src/test/resources/strava/.json'') = None"
    by (simp_all add: py0_def)
  from empty_heading_gives_dot_json [OF h1 h2 h3 h4, of 0 no_output] h5
  have "process_block py0 ?soup 2 0 no_output =
      (Inr (0 + 1),
       no_output\<lparr>writes := writes no_output
            @ [(ustr ''src/test/resources/strava/.json'', json_dumps py0 (JList []))],
         stdout := stdout no_output @ [0x2713 # ustr '' Saved src/test/resources/strava/.json'']\<rparr>)"
    by blast
  with h1 h2 show ?thesis by (simp add: no_output_def dumps_empty_list)
qed


lemma loads_ride:
  \<open>json_loads py (ustr ''{"id": 1, "name": "ride"}'')
     = Inr (JDict [(ustr ''id'', JInt 1), (ustr ''name'', JStr (ustr ''ride''))])\<close>
  by (simp add: loads_defs ustr_def startswith_def)

lemma dumps_ride:
  \<open>json_dumps py (JDict [(ustr ''id'', JInt 1), (ustr ''name'', JStr (ustr ''ride''))])
     = ustr ''{\<newline>  "id": 1,\<newline>  "name": "ride"\<newline>}''\<close>
  by (simp add: dumps_defs ustr_def)

lemma clean_name_get_activity: "clean_name lo (ustr ''Get Activity'') = ustr ''get-activity''"
  by (simp add: name_defs strip_def strip_chars_def is_space_def ustr_def)

text \<open>
  C7: the scenario of the specification. A block whose text is the object with the
  members \<open>id\<close> and \<open>name\<close>, and whose nearest heading before it reads
  \<open>Get Activity\<close>, is saved as \<open>get-activity.json\<close>, and the content of the file is
  the object on four lines, the two members indented by two spaces. Saving is the write
  and the line of \<open>save_example\<close>; where the file system takes the write and the
  standard output the line, the file is there and the counter is one more.
\<close>

theorem get_activity_scenario:
  \<open>find_previous soup block = Some header \<Longrightarrow>
   get_text header = ustr ''Get Activity'' \<Longrightarrow>
   get_text (descendants soup ! block) = ustr ''{"id": 1, "name": "ride"}'' \<Longrightarrow>
   process_block py soup block saved w =
     save_example py (ustr ''src/test/resources/strava/get-activity.json'')
       (ustr ''{\<newline>  "id": 1,\<newline>  "name": "ride"\<newline>}'') saved w \<and>
   (fs_write py (writes w) (ustr ''src/test/resources/strava/get-activity.json'')
       (ustr ''{\<newline>  "id": 1,\<newline>  "name": "ride"\<newline>}'') = Written \<and>
    print_error py (0x2713 # ustr '' Saved src/test/resources/strava/get-activity.json'') = None \<longrightarrow>
    process_block py soup block saved w =
     (Inr (saved + 1),
      w\<lparr>writes := writes w @
           [(ustr ''src/test/resources/strava/get-activity.json'',
             ustr ''{\<newline>  "id": 1,\<newline>  "name": "ride"\<newline>}'')],
        stdout := stdout w @
           [0x2713 # ustr '' Saved src/test/resources/strava/get-activity.json'']\<rparr>))\<close>
proof -
  assume h: "find_previous soup block = Some header" "get_text header = ustr ''Get Activity''"
    and t: \<open>get_text (descendants soup ! block) = ustr ''{"id": 1, "name": "ride"}''\<close>
  have bt: \<open>block_text soup block = ustr ''{"id": 1, "name": "ride"}''\<close>
    unfolding block_text_def t by (simp add: strip_def strip_chars_def is_space_def ustr_def)
  have lj: "looks_like_json (block_text soup block)"
    unfolding bt by (simp add: looks_like_json_def ustr_def startswith_def)
  have fn: "file_name py soup block saved = ustr ''src/test/resources/strava/get-activity.json''"
    unfolding file_name_def h option.case clean_name_get_activity
    by (simp add: os_path_join_def OUT_DIR_def ustr_def startswith_def)
  have jl: "json_loads py (block_text soup block)
      = Inr (JDict [(ustr ''id'', JInt 1), (ustr ''name'', JStr (ustr ''ride''))])"
    unfolding bt by (rule loads_ride)
  have s: \<open>process_block py soup block saved w =
     save_example py (ustr ''src/test/resources/strava/get-activity.json'')
       (ustr ''{\<newline>  "id": 1,\<newline>  "name": "ride"\<newline>}'') saved w\<close>
    unfolding process_block_save [OF lj jl] fn dumps_ride ..
  have \<open>save_example py (ustr ''src/test/resources/strava/get-activity.json'')
       (ustr ''{\<newline>  "id": 1,\<newline>  "name": "ride"\<newline>}'') saved w =
     (Inr (saved + 1),
      w\<lparr>writes := writes w @
           [(ustr ''src/test/resources/strava/get-activity.json'',
             ustr ''{\<newline>  "id": 1,\<newline>  "name": "ride"\<newline>}'')],
        stdout := stdout w @
           [0x2713 # ustr '' Saved src/test/resources/strava/get-activity.json'']\<rparr>)\<close>
    if \<open>fs_write py (writes w) (ustr ''src/test/resources/strava/get-activity.json'')
       (ustr ''{\<newline>  "id": 1,\<newline>  "name": "ride"\<newline>}'') = Written\<close>
      \<open>print_error py (0x2713 # ustr '' Saved src/test/resources/strava/get-activity.json'') = None\<close>
    using that by (simp add: save_example_def ustr_def)
  with s show ?thesis by simp
qed

theorem get_activity_scenario_witness:
  \<open>find_previous
      [Element (ustr ''h2'') [] [Text (ustr ''Get Activity'')],
       Element (ustr ''pre'') [] [Text (ustr ''{"id": 1, "name": "ride"}'')]] 2
     = Some (Element (ustr ''h2'') [] [Text (ustr ''Get Activity'')]) \<and>
   process_block py0
      [Element (ustr ''h2'') [] [Text (ustr ''Get Activity'')],
       Element (ustr ''pre'') [] [Text (ustr ''{"id": 1, "name": "ride"}'')]] 2 0 no_output =
     (Inr 1,
      \<lparr>writes = [(ustr ''src/test/resources/strava/get-activity.json'',
                  ustr ''{\<newline>  "id": 1,\<newline>  "name": "ride"\<newline>}'')],
       stdout = [0x2713 # ustr '' Saved src/test/resources/strava/get-activity.json'']\<rparr>)\<close>
proof -
  let ?soup = \<open>[Element (ustr ''h2'') [] [Text (ustr ''Get Activity'')],
       Element (ustr ''pre'') [] [Text (ustr ''{"id": 1, "name": "ride"}'')]]\<close>
  have h1: "find_previous ?soup 2 = Some (Element (ustr ''h2'') [] [Text (ustr ''Get Activity'')])"
    by (simp add: find_previous_def descendants_def is_heading_def ustr_def)
  have h2: "get_text (Element (ustr ''h2'') [] [Text (ustr ''Get Activity'')]) = ustr ''Get Activity''"
    by simp
  have h3: \<open>get_text (descendants ?soup ! 2) = ustr ''{"id": 1, "name": "ride"}''\<close>
    by (simp add: descendants_def)
  have h5: \<open>fs_write py0 (writes no_output) (ustr ''src/test/resources/strava/get-activity.json'')
       (ustr ''{\<newline>  "id": 1,\<newline>  "name": "ride"\<newline>}'') = Written\<close>
    "print_error py0 (0x2713 # ustr '' Saved src/test/resources/strava/get-activity.json'') = None"
    by (simp_all add: py0_def)
  from get_activity_scenario [OF h1 h2 h3, of py0 0 no_output] h5
  have \<open>process_block py0 ?soup 2 0 no_output =
     (Inr (0 + 1),
      no_output\<lparr>writes := writes no_output @
           [(ustr ''src/test/resources/strava/get-activity.json'',
             ustr ''{\<newline>  "id": 1,\<newline>  "name": "ride"\<newline>}'')],
        stdout := stdout no_output @
           [0x2713 # ustr '' Saved src/test/resources/strava/get-activity.json'']\<rparr>)\<close>
    by blast
  with h1 show ?thesis by (simp add: no_output_def)
qed

section \<open>File names\<close>

lemma str_of_nat_digits: "list_all is_digit (str_of_nat n) \<and> str_of_nat n \<noteq> []"
proof (induction n rule: str_of_nat.induct)
  case (1 n)
  show ?case
  proof (cases "n < 10")
    case True
    then show ?thesis by (subst (1 2) str_of_nat.simps) (simp add: is_digit_def)
  next
    case False
    have "n mod 10 < 10" by simp
    then have "is_digit (ord CHR ''0'' + n mod 10)" unfolding is_digit_def by simp
    with False 1 show ?thesis by (subst (1 2) str_of_nat.simps) simp
  qed
qed

lemma is_digit_name_char: "is_digit c \<Longrightarrow> name_char c \<and> c \<noteq> hyphen"
  by (auto simp: is_digit_def name_char_def hyphen_def)

lemma valid_name_example: "valid_name (ustr ''example-'' @ str_of_nat n)"
proof -
  let ?d = "str_of_nat n"
  have d: "list_all is_digit ?d" "?d \<noteq> []" using str_of_nat_digits [of n] by simp_all
  then have "is_digit (last ?d)" by (simp add: list_all_iff)
  then have l: "last ?d \<noteq> hyphen" by (simp add: is_digit_name_char)
  have a: "list_all name_char ?d" using d(1) by (auto simp: list_all_iff is_digit_name_char)
  have b: "list_all name_char (ustr ''example-'')" by (simp add: ustr_def name_char_def hyphen_def)
  have c: "\<not> startswith (rev (ustr ''example-'' @ ?d)) [hyphen]"
    using d(2) l by (simp add: startswith_single hd_rev)
  have e: "\<not> startswith (ustr ''example-'' @ ?d) [hyphen]"
    by (simp add: startswith_single ustr_def hyphen_def)
  from a b c e show ?thesis by (simp add: valid_name_def)
qed

lemma os_path_join_valid_name:
  assumes "valid_name title"
  shows "os_path_join OUT_DIR (title @ ustr ''.json'') = OUT_DIR @ ustr ''/'' @ title @ ustr ''.json''"
proof -
  have "\<not> startswith (title @ ustr ''.json'') (ustr ''/'')"
  proof (cases title)
    case Nil then show ?thesis by (simp add: ustr_def startswith_def)
  next
    case (Cons c cs)
    with assms have "name_char c" by (simp add: valid_name_def)
    then have "c \<noteq> ord CHR ''/''" by (auto simp: name_char_def hyphen_def)
    with Cons show ?thesis by (simp add: ustr_def startswith_def)
  qed
  then show ?thesis by (simp add: os_path_join_def OUT_DIR_def ustr_def)
qed

lemma valid_name_title:
  "valid_name (case find_previous soup block of
           Some h \<Rightarrow> clean_name (unicode_lower py) (get_text h)
         | None \<Rightarrow> ustr ''example-'' @ str_of_nat (saved + 1))"
  by (simp add: valid_name_clean_name valid_name_example split: option.split)

lemma file_name_valid:
  "\<exists>base. valid_name base \<and> file_name py soup block saved = OUT_DIR @ ustr ''/'' @ base @ ustr ''.json''"
  unfolding file_name_def using valid_name_title os_path_join_valid_name by blast

lemma file_name_example:
  "find_previous soup block = None \<Longrightarrow>
   file_name py soup block saved
     = ustr ''src/test/resources/strava/example-'' @ str_of_nat (saved + 1) @ ustr ''.json''"
  using os_path_join_valid_name [OF valid_name_example [of "saved + 1"]]
  by (simp add: file_name_def OUT_DIR_def ustr_def)

lemma find_previous_None: "find_previous soup i = None \<longleftrightarrow> (\<forall>n \<in> set (take i (descendants soup)). \<not> is_heading n)"
proof -
  have "find_previous soup i = None \<longleftrightarrow> filter is_heading (rev (take i (descendants soup))) = []"
    by (simp add: find_previous_def split: list.splits)
  then show ?thesis by (simp add: filter_empty_conv)
qed

lemma find_previous_None_mono: "find_previous soup i = None \<Longrightarrow> j \<le> i \<Longrightarrow> find_previous soup j = None"
  unfolding find_previous_None using set_take_subset_set_take [of j i "descendants soup"] by blast

lemma saved_blocks_sorted: "sorted_wrt (<) (saved_blocks py soup)"
  unfolding saved_blocks_def select_def by (intro sorted_wrt_filter) simp

lemma saved_blocks_nth_less:
  "j < k \<Longrightarrow> k < length (saved_blocks py soup) \<Longrightarrow> saved_blocks py soup ! j < saved_blocks py soup ! k"
  using saved_blocks_sorted [of py soup] by (simp add: sorted_wrt_iff_nth_less)


text \<open>
  C1: the fallback name counts the saves. The \<open>k\<close>-th block that parses (counted from
  1 over the blocks that are saved, whatever was scanned and passed over between them)
  and has no heading before it is written to \<open>example-<k>.json\<close>: this is the path of
  the \<open>k\<close>-th write of the run. No saved block before it has a heading either, so
  \<open>k\<close> is also its rank among the saved blocks without a heading. A run writes at
  most one file for each block that parses, and a run that ends without an exception
  writes one for each. Below, \<open>k\<close> counts from 0 and the file is
  \<open>example-<k+1>.json\<close>.
\<close>

theorem fallback_name_counts_saves:
  "k < length (saved_blocks py soup) \<Longrightarrow>
   find_previous soup (saved_blocks py soup ! k) = None \<Longrightarrow>
   length (new_writes w (snd (extract_soup py soup w))) \<le> length (saved_blocks py soup) \<and>
   (fst (extract_soup py soup w) = Inr () \<longrightarrow>
      length (new_writes w (snd (extract_soup py soup w))) = length (saved_blocks py soup)) \<and>
   (k < length (new_writes w (snd (extract_soup py soup w))) \<longrightarrow>
      fst (new_writes w (snd (extract_soup py soup w)) ! k)
        = ustr ''src/test/resources/strava/example-'' @ str_of_nat (k + 1) @ ustr ''.json'') \<and>
   (\<forall>j<k. find_previous soup (saved_blocks py soup ! j) = None)"
proof (intro conjI allI impI)
  let ?nw = "new_writes w (snd (extract_soup py soup w))"
  let ?names = "map (\<lambda>kb. file_name py soup (snd kb) (fst kb)) (enumerate 0 (saved_blocks py soup))"
  assume k: "k < length (saved_blocks py soup)"
    and h: "find_previous soup (saved_blocks py soup ! k) = None"
  from extract_soup_paths [of w py soup] obtain m where m: "map fst ?nw = take m ?names" by blast
  then have "length (map fst ?nw) = length (take m ?names)" by simp
  then have len: "length ?nw = min m (length (saved_blocks py soup))" by simp
  then show "length ?nw \<le> length (saved_blocks py soup)" by simp
  show "length ?nw = length (saved_blocks py soup)" if "fst (extract_soup py soup w) = Inr ()"
    using that by (simp add: new_writes_extract_soup)
  show "fst (?nw ! k) = ustr ''src/test/resources/strava/example-'' @ str_of_nat (k + 1) @ ustr ''.json''"
    if kw: "k < length ?nw"
  proof -
    from kw len have km: "k < m" by simp
    have "fst (?nw ! k) = map fst ?nw ! k" using kw by simp
    also have "\<dots> = ?names ! k" unfolding m using km by simp
    also have "\<dots> = file_name py soup (saved_blocks py soup ! k) k"
      using k by (simp add: nth_enumerate_eq)
    finally show ?thesis by (simp add: file_name_example [OF h])
  qed
  fix j assume "j < k"
  then have "saved_blocks py soup ! j \<le> saved_blocks py soup ! k"
    using saved_blocks_nth_less [OF _ k] by (simp add: less_imp_le)
  then show "find_previous soup (saved_blocks py soup ! j) = None"
    by (rule find_previous_None_mono [OF h])
qed

lemma loads_123: "json_loads py (ustr ''[1,2,3]'') = Inr (JList [JInt 1, JInt 2, JInt 3])"
  by (simp add: loads_defs ustr_def startswith_def)

lemma loads_a1: \<open>json_loads py (ustr ''{"a":1}'') = Inr (JDict [(ustr ''a'', JInt 1)])\<close>
  by (simp add: loads_defs ustr_def startswith_def)

lemma two_blocks_saved:
  \<open>saved_blocks py
     [Element (ustr ''pre'') [] [Text (ustr ''[1,2,3]'')],
      Element (ustr ''code'') [] [Text (ustr ''{"a":1}'')]] = [0, 2] \<and>
   (\<forall>b \<in> set (select
     [Element (ustr ''pre'') [] [Text (ustr ''[1,2,3]'')],
      Element (ustr ''code'') [] [Text (ustr ''{"a":1}'')]]).
      \<not> raising_block py
     [Element (ustr ''pre'') [] [Text (ustr ''[1,2,3]'')],
      Element (ustr ''code'') [] [Text (ustr ''{"a":1}'')]] b)\<close>
proof -
  let ?soup = \<open>[Element (ustr ''pre'') [] [Text (ustr ''[1,2,3]'')],
      Element (ustr ''code'') [] [Text (ustr ''{"a":1}'')]]\<close>
  have s: "select ?soup = [0, 2]"
    by (simp add: select_def descendants_def matches_selectors_def ustr_def upt_rec_numeral)
  have t0: "block_text ?soup 0 = ustr ''[1,2,3]''" by (simp add: text_defs)
  have t2: \<open>block_text ?soup 2 = ustr ''{"a":1}''\<close> by (simp add: text_defs)
  have l0: "looks_like_json (ustr ''[1,2,3]'')" by (simp add: looks_like_json_def ustr_def startswith_def)
  have l2: \<open>looks_like_json (ustr ''{"a":1}'')\<close> by (simp add: looks_like_json_def ustr_def startswith_def)
  show ?thesis
    unfolding saved_blocks_def s
    by (simp add: saved_block_def raising_block_def t0 t2 l0 l2 loads_123 loads_a1)
qed

theorem fallback_name_counts_saves_witness:
  \<open>1 < length (saved_blocks py0
          [Element (ustr ''pre'') [] [Text (ustr ''[1,2,3]'')],
           Element (ustr ''code'') [] [Text (ustr ''{"a":1}'')]]) \<and>
   find_previous
       [Element (ustr ''pre'') [] [Text (ustr ''[1,2,3]'')],
        Element (ustr ''code'') [] [Text (ustr ''{"a":1}'')]]
       (saved_blocks py0
          [Element (ustr ''pre'') [] [Text (ustr ''[1,2,3]'')],
           Element (ustr ''code'') [] [Text (ustr ''{"a":1}'')]] ! 1) = None \<and>
   fst (extract_soup py0
          [Element (ustr ''pre'') [] [Text (ustr ''[1,2,3]'')],
           Element (ustr ''code'') [] [Text (ustr ''{"a":1}'')]] no_output) = Inr () \<and>
   1 < length (new_writes no_output
          (snd (extract_soup py0
             [Element (ustr ''pre'') [] [Text (ustr ''[1,2,3]'')],
              Element (ustr ''code'') [] [Text (ustr ''{"a":1}'')]] no_output))) \<and>
   fst (new_writes no_output
          (snd (extract_soup py0
             [Element (ustr ''pre'') [] [Text (ustr ''[1,2,3]'')],
              Element (ustr ''code'') [] [Text (ustr ''{"a":1}'')]] no_output)) ! 1)
     = ustr ''src/test/resources/strava/example-2.json''\<close>
proof -
  let ?soup = \<open>[Element (ustr ''pre'') [] [Text (ustr ''[1,2,3]'')],
      Element (ustr ''code'') [] [Text (ustr ''{"a":1}'')]]\<close>
  note sb = two_blocks_saved [of py0, THEN conjunct1]
  have h1: "1 < length (saved_blocks py0 ?soup)" by (simp add: sb)
  have h2: "find_previous ?soup (saved_blocks py0 ?soup ! 1) = None"
    unfolding sb by (simp add: find_previous_def descendants_def is_heading_def ustr_def)
  have h3: "fst (extract_soup py0 ?soup no_output) = Inr ()"
    by (simp add: extract_soup_run [OF reliable_py0 two_blocks_saved [of py0, THEN conjunct2]])
  note c = fallback_name_counts_saves [OF h1 h2, of no_output]
  from c h3 have len: "length (new_writes no_output (snd (extract_soup py0 ?soup no_output)))
      = length (saved_blocks py0 ?soup)" by blast
  with h1 have h4: "1 < length (new_writes no_output (snd (extract_soup py0 ?soup no_output)))"
    by simp
  with c have "fst (new_writes no_output (snd (extract_soup py0 ?soup no_output)) ! 1)
     = ustr ''src/test/resources/strava/example-'' @ str_of_nat (1 + 1) @ ustr ''.json''"
    by blast
  also have "\<dots> = ustr ''src/test/resources/strava/example-2.json''"
    by (simp add: str_of_nat.simps ustr_def)
  finally show ?thesis using h1 h2 h3 h4 by blast
qed

subsection \<open>The normalisation, step by step\<close>

lemma sub_runs_replace_runs:
  "sub_runs False s = replace_runs s \<and>
   sub_runs True s = replace_runs (dropWhile (\<lambda>x. \<not> name_char x) s)"
  by (induction s) auto

lemma clean_name_spec: "clean_name lo text = spec_normalize lo (strip text)"
  by (simp add: clean_name_def spec_normalize_def re_sub_def sub_runs_replace_runs)

text \<open>
  Code points outside the class around a text change nothing in the result: the runs
  they are in become hyphens at the start and at the end, which are stripped.
\<close>

lemma replace_runs_left:
  assumes "list_all (\<lambda>x. \<not> name_char x) l"
  shows "replace_runs (l @ x) = replace_runs x \<or> replace_runs (l @ x) = hyphen # replace_runs x"
proof (cases l)
  case Nil
  then show ?thesis by simp
next
  case (Cons c l')
  with assms have c: "\<not> name_char c" and l': "\<And>y. y \<in> set l' \<Longrightarrow> \<not> name_char y"
    by (simp_all add: list_all_iff)
  have d: "dropWhile (\<lambda>x. \<not> name_char x) (l' @ x) = dropWhile (\<lambda>x. \<not> name_char x) x"
    using l' by (subst dropWhile_append2) auto
  have 1: "replace_runs (l @ x) = hyphen # replace_runs (dropWhile (\<lambda>x. \<not> name_char x) x)"
    using c by (simp add: Cons d)
  show ?thesis
  proof (cases x)
    case Nil
    with 1 show ?thesis by simp
  next
    case x: (Cons a x')
    show ?thesis
    proof (cases "name_char a")
      case True
      with 1 x show ?thesis by simp
    next
      case False
      with 1 x show ?thesis by simp
    qed
  qed
qed

lemma replace_runs_right:
  "list_all (\<lambda>x. \<not> name_char x) r \<Longrightarrow>
   replace_runs (x @ r) = replace_runs x \<or> replace_runs (x @ r) = replace_runs x @ [hyphen]"
proof (induction x rule: replace_runs.induct)
  case 1
  then show ?case
  proof (cases r)
    case Nil
    then show ?thesis by simp
  next
    case (Cons c r')
    with "1.prems" have c: "\<not> name_char c" and r': "\<And>y. y \<in> set r' \<Longrightarrow> \<not> name_char y"
      by (simp_all add: list_all_iff)
    have dd: "dropWhile (\<lambda>x. \<not> name_char x) r' = []" using r' by simp
    show ?thesis unfolding Cons using c by (simp add: dd)
  qed
next
  case (2 c cs)
  show ?case
  proof (cases "name_char c")
    case True
    with 2 show ?thesis by auto
  next
    case False
    let ?d = "dropWhile (\<lambda>x. \<not> name_char x)"
    have r: "?d r = []" using "2.prems" by (simp add: list_all_iff)
    show ?thesis
    proof (cases "\<forall>y \<in> set cs. \<not> name_char y")
      case True
      then have e: "?d (cs @ r) = []" "?d cs = []" using r by simp_all
      show ?thesis using False by (simp add: e)
    next
      case f: False
      then obtain y where "y \<in> set cs" "\<not> \<not> name_char y" by blast
      then have "?d (cs @ r) = ?d cs @ r" by (rule dropWhile_append1)
      with False "2.IH"(2) [OF False "2.prems"] show ?thesis by auto
    qed
  qed
qed

lemma strip_chars_Cons: "P c \<Longrightarrow> strip_chars P (c # s) = strip_chars P s"
  by (simp add: strip_chars_def)

lemma strip_chars_snoc: "P c \<Longrightarrow> strip_chars P (s @ [c]) = strip_chars P s"
proof (cases "\<forall>y \<in> set s. P y")
  case True
  assume c: "P c"
  have "dropWhile P s = []" "dropWhile P (s @ [c]) = []" using True c by simp_all
  then show ?thesis by (simp only: strip_chars_def)
next
  case False
  assume c: "P c"
  from False obtain y where "y \<in> set s" "\<not> P y" by blast
  then have "dropWhile P (s @ [c]) = dropWhile P s @ [c]" by (rule dropWhile_append1)
  with c show ?thesis by (simp add: strip_chars_def)
qed

lemma spec_normalize_around:
  assumes "list_all (\<lambda>x. \<not> name_char x) l" "list_all (\<lambda>x. \<not> name_char x) r"
  shows "strip_chars (\<lambda>c. c = hyphen) (replace_runs (l @ x @ r))
    = strip_chars (\<lambda>c. c = hyphen) (replace_runs x)"
proof -
  have "strip_chars (\<lambda>c. c = hyphen) (replace_runs (l @ x @ r))
      = strip_chars (\<lambda>c. c = hyphen) (replace_runs (x @ r))"
    using replace_runs_left [OF assms(1), of "x @ r"] by (auto simp: strip_chars_Cons)
  also have "\<dots> = strip_chars (\<lambda>c. c = hyphen) (replace_runs x)"
    using replace_runs_right [OF assms(2), of x] by (auto simp: strip_chars_snoc)
  finally show ?thesis .
qed

lemma strip_around:
  "\<exists>l r. text = l @ strip text @ r \<and> list_all is_space l \<and> list_all is_space r"
proof -
  let ?d = "dropWhile is_space text"
  have 1: "text = takeWhile is_space text @ ?d" by simp
  have "?d = rev (dropWhile is_space (rev ?d)) @ rev (takeWhile is_space (rev ?d))"
    by (metis rev_append rev_rev_ident takeWhile_dropWhile_id)
  then have 2: "?d = strip text @ rev (takeWhile is_space (rev ?d))"
    by (simp only: strip_def strip_chars_def)
  have 3: "list_all is_space (takeWhile is_space text)"
    "list_all is_space (rev (takeWhile is_space (rev ?d)))"
    by (auto simp: list_all_iff dest: set_takeWhileD)
  from 1 2 have "text = takeWhile is_space text @ strip text @ rev (takeWhile is_space (rev ?d))"
    by metis
  with 3 show ?thesis by blast
qed

lemma lower_from_ascii: "\<forall>c \<in> set s. c < 128 \<Longrightarrow> lower_from lo d s = map ascii_lower s"
  by (induction s arbitrary: d) auto

lemma ascii_lower_space: "is_space c \<Longrightarrow> \<not> name_char (ascii_lower c)"
  by (auto simp: is_space_def name_char_def ascii_lower_def hyphen_def)

lemma clean_name_ascii:
  assumes "\<forall>c \<in> set text. c < 128"
  shows "clean_name lo text = spec_normalize lo text"
proof -
  from strip_around [of "text"] obtain l r where
    t: "text = l @ strip text @ r" and l: "list_all is_space l" and r: "list_all is_space r"
    by blast
  have a: "\<forall>c \<in> set (strip text). c < 128"
    using assms by (subst (asm) t) auto
  have "lower lo text = map ascii_lower text" using assms by (simp add: lower_def lower_from_ascii)
  also have "\<dots> = map ascii_lower l @ map ascii_lower (strip text) @ map ascii_lower r"
    by (subst t) simp
  finally have lt: "lower lo text = map ascii_lower l @ lower lo (strip text) @ map ascii_lower r"
    using a by (simp add: lower_def lower_from_ascii)
  have "list_all (\<lambda>x. \<not> name_char x) (map ascii_lower l)"
    "list_all (\<lambda>x. \<not> name_char x) (map ascii_lower r)"
    using l r by (auto simp: list_all_iff ascii_lower_space)
  then show ?thesis
    unfolding clean_name_spec spec_normalize_def [of lo "text"] lt spec_normalize_def [of lo "strip text"]
    by (simp add: spec_normalize_around)
qed

lemma extract_soup_names:
  assumes "written \<in> set (new_writes w (snd (extract_soup py soup w)))"
  shows "\<exists>base. valid_name base \<and> fst written = OUT_DIR @ ustr ''/'' @ base @ ustr ''.json''"
proof -
  let ?names = "map (\<lambda>kb. file_name py soup (snd kb) (fst kb)) (enumerate 0 (saved_blocks py soup))"
  from extract_soup_paths [of w py soup] obtain m where
    m: "map fst (new_writes w (snd (extract_soup py soup w))) = take m ?names" by blast
  from assms have "fst written \<in> set (map fst (new_writes w (snd (extract_soup py soup w))))"
    by simp
  then have "fst written \<in> set ?names" unfolding m by (rule in_set_takeD)
  then obtain kb where "fst written = file_name py soup (snd kb) (fst kb)" by auto
  then show ?thesis using file_name_valid [of py soup "snd kb" "fst kb"] by simp
qed

text \<open>
  C6: the names of the output files. The normalisation of any text, and the fallback
  name for any count, consist of lower-case letters, digits and hyphens only and neither
  start nor end with a hyphen; and every file that a run writes, however the run ends,
  is in the output directory under such a base name followed by \<open>.json\<close>.

  The normalisation is the one of the specification, applied to the text without the
  white space around it: the text is lower-cased, every maximal run of code points
  outside \<open>a-z\<close>, \<open>0-9\<close> and the hyphen becomes one hyphen, and the hyphens at the
  start and at the end are stripped. For an ASCII text, whose lower-casing does not
  depend on the platform, trimming the white space first makes no difference and the
  result is the normalisation of the specification applied to the text itself.
\<close>

theorem output_names_valid:
  "valid_name (clean_name lo text) \<and>
   valid_name (ustr ''example-'' @ str_of_nat n) \<and>
   (\<forall>written \<in> set (new_writes w (snd (extract_soup py soup w))).
      \<exists>base. valid_name base \<and> fst written = OUT_DIR @ ustr ''/'' @ base @ ustr ''.json'') \<and>
   clean_name lo text = spec_normalize lo (strip text) \<and>
   ((\<forall>c \<in> set text. c < 128) \<longrightarrow> clean_name lo text = spec_normalize lo text)"
proof (intro conjI ballI impI)
  show "valid_name (clean_name lo text)" by (rule valid_name_clean_name)
  show "valid_name (ustr ''example-'' @ str_of_nat n)" by (rule valid_name_example)
  show "clean_name lo text = spec_normalize lo (strip text)" by (rule clean_name_spec)
  show "clean_name lo text = spec_normalize lo text" if "\<forall>c \<in> set text. c < 128"
    using that by (rule clean_name_ascii)
  fix written assume "written \<in> set (new_writes w (snd (extract_soup py soup w)))"
  then show "\<exists>base. valid_name base \<and> fst written = OUT_DIR @ ustr ''/'' @ base @ ustr ''.json''"
    by (rule extract_soup_names)
qed

lemma one_block_saved:
  "saved_blocks py
     [Element (ustr ''h2'') [] [Text (ustr ''  Get  Activity (v3)!'')],
      Element (ustr ''pre'') [] [Text (ustr ''[]'')]] = [2] \<and>
   (\<forall>b \<in> set (select
     [Element (ustr ''h2'') [] [Text (ustr ''  Get  Activity (v3)!'')],
      Element (ustr ''pre'') [] [Text (ustr ''[]'')]]).
      \<not> raising_block py
     [Element (ustr ''h2'') [] [Text (ustr ''  Get  Activity (v3)!'')],
      Element (ustr ''pre'') [] [Text (ustr ''[]'')]] b)"
proof -
  let ?soup = "[Element (ustr ''h2'') [] [Text (ustr ''  Get  Activity (v3)!'')],
      Element (ustr ''pre'') [] [Text (ustr ''[]'')]]"
  have s: "select ?soup = [2]"
    by (simp add: select_def descendants_def matches_selectors_def ustr_def upt_rec_numeral)
  have t: "block_text ?soup 2 = ustr ''[]''" by (simp add: text_defs)
  have l: "looks_like_json (ustr ''[]'')" by (simp add: looks_like_json_def ustr_def startswith_def)
  show ?thesis
    unfolding saved_blocks_def s by (simp add: saved_block_def raising_block_def t l loads_empty_list)
qed

lemma spec_normalize_example:
  "spec_normalize lo (ustr ''  Get  Activity (v3)!'') = ustr ''get-activity-v3''"
  by (simp add: spec_normalize_def lower_def ascii_lower_def name_char_def hyphen_def
      strip_chars_def ustr_def)

theorem output_names_valid_witness:
  "(ustr ''src/test/resources/strava/get-activity-v3.json'', ustr ''[]'')
     \<in> set (new_writes no_output
          (snd (extract_soup py0
             [Element (ustr ''h2'') [] [Text (ustr ''  Get  Activity (v3)!'')],
              Element (ustr ''pre'') [] [Text (ustr ''[]'')]] no_output))) \<and>
   (\<exists>base. valid_name base \<and>
      ustr ''src/test/resources/strava/get-activity-v3.json'' = OUT_DIR @ ustr ''/'' @ base @ ustr ''.json'') \<and>
   list_all (\<lambda>c. c < 128) (ustr ''  Get  Activity (v3)!'') \<and>
   clean_name (unicode_lower py0) (ustr ''  Get  Activity (v3)!'') = ustr ''get-activity-v3''"
proof -
  let ?soup = "[Element (ustr ''h2'') [] [Text (ustr ''  Get  Activity (v3)!'')],
      Element (ustr ''pre'') [] [Text (ustr ''[]'')]]"
  let ?written = "(ustr ''src/test/resources/strava/get-activity-v3.json'', ustr ''[]'')"
  note v = output_names_valid [of "unicode_lower py0" "ustr ''  Get  Activity (v3)!''" 0 no_output py0 ?soup]
  have a: "\<forall>c \<in> set (ustr ''  Get  Activity (v3)!''). c < 128" by (simp add: ustr_def)
  with v have "clean_name (unicode_lower py0) (ustr ''  Get  Activity (v3)!'')
      = spec_normalize (unicode_lower py0) (ustr ''  Get  Activity (v3)!'')" by blast
  then have c: "clean_name (unicode_lower py0) (ustr ''  Get  Activity (v3)!'') = ustr ''get-activity-v3''"
    by (simp only: spec_normalize_example)
  have t: "block_text ?soup 2 = ustr ''[]''" by (simp add: text_defs)
  have h: "find_previous ?soup 2 = Some (Element (ustr ''h2'') [] [Text (ustr ''  Get  Activity (v3)!'')])"
    by (simp add: find_previous_def descendants_def is_heading_def ustr_def)
  have f: "file_name py0 ?soup 2 0 = ustr ''src/test/resources/strava/get-activity-v3.json''"
    unfolding file_name_def h option.case get_text.simps list.map concat.simps append_Nil2 c
    by (simp add: os_path_join_def OUT_DIR_def ustr_def startswith_def)
  have sf: "saved_file py0 ?soup (0, 2) = ?written"
    unfolding saved_file_def fst_conv snd_conv f t loads_empty_list sum.sel dumps_empty_list ..
  have "new_writes no_output (snd (extract_soup py0 ?soup no_output)) = [?written]"
    by (simp add: extract_soup_run [OF reliable_py0 one_block_saved [of py0, THEN conjunct2]]
        one_block_saved [of py0, THEN conjunct1] new_writes_def no_output_def sf)
  then have m: "?written \<in> set (new_writes no_output (snd (extract_soup py0 ?soup no_output)))"
    by simp
  with v have "\<exists>base. valid_name base \<and> fst ?written = OUT_DIR @ ustr ''/'' @ base @ ustr ''.json''"
    by blast
  with m a c show ?thesis by (simp add: list_all_iff)
qed

section \<open>Fetching errors\<close>




section \<open>Nested candidates\<close>

lemma preorder_Cons: "\<exists>rest. preorder t = t # rest"
  by (cases t) auto

lemma forest_subtree:
  assumes "\<And>t. t \<in> set ts \<Longrightarrow>
     \<forall>i < length (preorder t). \<exists>rest. drop i (preorder t) = preorder (preorder t ! i) @ rest"
  shows "\<forall>i < length (concat (map preorder ts)).
     \<exists>rest. drop i (concat (map preorder ts)) = preorder (concat (map preorder ts) ! i) @ rest"
  using assms
proof (induction ts)
  case Nil
  show ?case by simp
next
  case (Cons t ts)
  show ?case
  proof (intro allI impI)
    fix i assume i: "i < length (concat (map preorder (t # ts)))"
    show "\<exists>rest. drop i (concat (map preorder (t # ts)))
        = preorder (concat (map preorder (t # ts)) ! i) @ rest"
    proof (cases "i < length (preorder t)")
      case True
      with Cons.prems [of t] obtain rest where "drop i (preorder t) = preorder (preorder t ! i) @ rest"
        by auto
      with True show ?thesis by (simp add: nth_append)
    next
      case False
      let ?j = "i - length (preorder t)"
      from False i have j: "?j < length (concat (map preorder ts))" by simp
      have "\<forall>i < length (concat (map preorder ts)).
         \<exists>rest. drop i (concat (map preorder ts)) = preorder (concat (map preorder ts) ! i) @ rest"
        using Cons.prems by (intro Cons.IH) simp
      with j obtain rest where
        "drop ?j (concat (map preorder ts)) = preorder (concat (map preorder ts) ! ?j) @ rest"
        by blast
      with False show ?thesis by (simp add: nth_append)
    qed
  qed
qed

lemma tree_subtree:
  "\<forall>i < length (preorder t). \<exists>rest. drop i (preorder t) = preorder (preorder t ! i) @ rest"
proof (induction t)
  case (Text s)
  show ?case by simp
next
  case (Hidden s)
  show ?case by simp
next
  case (Element name classes children)
  have f: "\<forall>i < length (concat (map preorder children)).
     \<exists>rest. drop i (concat (map preorder children))
        = preorder (concat (map preorder children) ! i) @ rest"
    using Element.IH by (intro forest_subtree) simp
  show ?case
  proof (intro allI impI)
    fix i assume i: "i < length (preorder (Element name classes children))"
    show "\<exists>rest. drop i (preorder (Element name classes children))
       = preorder (preorder (Element name classes children) ! i) @ rest"
    proof (cases i)
      case 0
      then show ?thesis by simp
    next
      case (Suc j)
      with i f show ?thesis by simp
    qed
  qed
qed

lemma descendants_subtree:
  "i < length (descendants soup) \<Longrightarrow>
   \<exists>rest. drop i (descendants soup) = preorder (descendants soup ! i) @ rest"
  unfolding descendants_def using forest_subtree [of soup] tree_subtree by blast

lemma nat_of_str_str_of_nat: "nat_of_str (str_of_nat n) = n"
proof (induction n rule: str_of_nat.induct)
  case (1 n)
  show ?case
  proof (cases "n < 10")
    case True
    then show ?thesis by (subst str_of_nat.simps) (simp add: nat_of_str_def)
  next
    case False
    with 1 have "nat_of_str (str_of_nat (n div 10)) = n div 10" by simp
    then have "nat_of_str (str_of_nat (n div 10) @ [ord CHR ''0'' + n mod 10]) = n"
      by (simp add: nat_of_str_def)
    with False show ?thesis by (subst str_of_nat.simps) simp
  qed
qed

lemma str_of_nat_inj: "str_of_nat m = str_of_nat n \<Longrightarrow> m = n"
  by (metis nat_of_str_str_of_nat)

lemma subtree_nth:
  assumes "i < length (descendants soup)" and "k < length (preorder (descendants soup ! i))"
  shows "i + k < length (descendants soup) \<and>
    descendants soup ! (i + k) = preorder (descendants soup ! i) ! k"
proof -
  from descendants_subtree [OF assms(1)] obtain rest where
    d: "drop i (descendants soup) = preorder (descendants soup ! i) @ rest" by blast
  then have "length (drop i (descendants soup)) = length (preorder (descendants soup ! i) @ rest)"
    by simp
  with assms(2) have l: "i + k < length (descendants soup)" by simp
  then have "descendants soup ! (i + k) = drop i (descendants soup) ! k" by simp
  also have "\<dots> = preorder (descendants soup ! i) ! k"
    unfolding d using assms(2) by (simp add: nth_append)
  finally show ?thesis using l by simp
qed

lemma find_previous_skip:
  assumes "i \<le> j" "j \<le> length (descendants soup)"
    and "\<And>k. i \<le> k \<Longrightarrow> k < j \<Longrightarrow> \<not> is_heading (descendants soup ! k)"
  shows "find_previous soup j = find_previous soup i"
proof -
  let ?D = "descendants soup"
  have "take i (take j ?D) = take i ?D" using assms(1) by (simp add: min_def)
  then have t: "take j ?D = take i ?D @ drop i (take j ?D)"
    using append_take_drop_id [of i "take j ?D"] by simp
  have "\<not> is_heading n" if "n \<in> set (drop i (take j ?D))" for n
  proof -
    from that obtain m where m: "m < length (drop i (take j ?D))" "n = drop i (take j ?D) ! m"
      by (auto simp: in_set_conv_nth)
    then have "m < j - i" using assms(2) by simp
    with m assms(2) have "n = ?D ! (i + m)" by simp
    with assms(3) [of "i + m"] \<open>m < j - i\<close> show ?thesis by simp
  qed
  then have "filter is_heading (rev (drop i (take j ?D))) = []" by (simp add: filter_empty_conv)
  then have "filter is_heading (rev (take j ?D)) = filter is_heading (rev (take i ?D))"
    by (subst t) simp
  then show ?thesis by (simp add: find_previous_def)
qed

lemma sorted_positions:
  assumes "sorted_wrt (<) (xs :: nat list)" "x \<in> set xs" "y \<in> set xs" "x < y"
  shows "\<exists>a b. a < b \<and> b < length xs \<and> xs ! a = x \<and> xs ! b = y"
proof -
  from assms(2,3) obtain a b where a: "a < length xs" "xs ! a = x" and b: "b < length xs" "xs ! b = y"
    by (auto simp: in_set_conv_nth)
  have "a < b"
  proof (rule ccontr)
    assume "\<not> a < b"
    then consider "a = b" | "b < a" by linarith
    then show False
    proof cases
      case 1 with a b assms(4) show False by simp
    next
      case 2
      with assms(1) a(1) have "xs ! b < xs ! a" by (simp add: sorted_wrt_iff_nth_less)
      with a b assms(4) show False by simp
    qed
  qed
  with a b show ?thesis by blast
qed

lemma list_of_two: "length xs = 2 \<Longrightarrow> xs = [xs ! 0, xs ! 1]"
  by (auto simp: length_Suc_conv numeral_2_eq_2)

lemma select_member:
  "i < length (descendants soup) \<Longrightarrow> matches_selectors (descendants soup ! i) \<Longrightarrow> i \<in> set (select soup)"
  by (simp add: select_def)

text \<open>
  C10 as stated fails for an example with no heading before it: the two candidates are
  saved under two different names, \<open>example-1.json\<close> and \<open>example-2.json\<close>, and the
  second write replaces nothing.
\<close>

theorem nested_code_without_heading:
  "map fst (writes (snd (extract_soup py0
      [Element (ustr ''pre'') [] [Element (ustr ''code'') [] [Text (ustr ''[]'')]]] no_output)))
     = [ustr ''src/test/resources/strava/example-1.json'',
        ustr ''src/test/resources/strava/example-2.json''] \<and>
   ustr ''src/test/resources/strava/example-1.json'' \<noteq> ustr ''src/test/resources/strava/example-2.json''"
proof -
  let ?soup = "[Element (ustr ''pre'') [] [Element (ustr ''code'') [] [Text (ustr ''[]'')]]]"
  have s: "select ?soup = [0, Suc 0]"
    by (simp add: select_def descendants_def matches_selectors_def ustr_def upt_rec_numeral)
  have t: "block_text ?soup 0 = ustr ''[]''" "block_text ?soup (Suc 0) = ustr ''[]''"
    by (simp_all add: text_defs)
  have l: "looks_like_json (ustr ''[]'')" by (simp add: looks_like_json_def ustr_def startswith_def)
  have sb: "saved_blocks py0 ?soup = [0, Suc 0]"
    unfolding saved_blocks_def s by (simp add: saved_block_def t l loads_empty_list)
  have nr: "\<forall>b \<in> set (select ?soup). \<not> raising_block py0 ?soup b"
    unfolding s by (simp add: raising_block_def t l loads_empty_list)
  have h: "find_previous ?soup 0 = None" "find_previous ?soup (Suc 0) = None"
    by (simp_all add: find_previous_def descendants_def is_heading_def ustr_def)
  have f: "fst (saved_file py0 ?soup (0, 0)) = ustr ''src/test/resources/strava/example-1.json''"
    "fst (saved_file py0 ?soup (Suc 0, Suc 0)) = ustr ''src/test/resources/strava/example-2.json''"
    unfolding saved_file_def fst_conv snd_conv file_name_example [OF h(1)] file_name_example [OF h(2)]
    by (simp_all add: str_of_nat.simps ustr_def)
  show ?thesis
    unfolding extract_soup_run [OF reliable_py0 nr] sb by (simp add: f no_output_def) (simp add: ustr_def)
qed

text \<open>
  C10, amended. Take a \<open>pre\<close> element with no \<open>h2\<close> or \<open>h3\<close> heading inside it and
  a \<open>code\<close> element nested in it, at any depth and with anything around it, such that
  the trimmed text of the two is the same and parses. In the document order the code
  element is at position \<open>i + k\<close> when the \<open>pre\<close> element is at position \<open>i\<close> and the
  code element is the \<open>k\<close>-th node inside it. Both are candidates that the loop saves:
  they are the blocks number \<open>a\<close> and \<open>b\<close>, \<open>a\<close> before \<open>b\<close>, among the blocks that
  parse.

  If a heading comes before the \<open>pre\<close> element, the two are saved under the same
  path. If there is none, they are saved under two different paths,
  \<open>example-<a+1>.json\<close> and \<open>example-<b+1>.json\<close>. Whatever the end of the run,
  its \<open>a\<close>-th and \<open>b\<close>-th write, when the run gets to them, go to these paths. A run
  that ends without an exception has written the same content in both writes, and the
  total that it prints is the number of its writes; with a heading before the \<open>pre\<close>
  element this total is above the number of the paths written to.
\<close>

theorem nested_code_saved_twice:
  assumes "i < length (descendants soup)"
    and "descendants soup ! i = Element (ustr ''pre'') classes children"
    and "list_all (\<lambda>n. \<not> is_heading n) (preorder (descendants soup ! i))"
    and "0 < k" and "k < length (preorder (descendants soup ! i))"
    and "preorder (descendants soup ! i) ! k = Element (ustr ''code'') classes' children'"
    and "block_text soup (i + k) = block_text soup i"
    and "saved_block py soup i"
  shows "descendants soup ! (i + k) = Element (ustr ''code'') classes' children' \<and>
    (\<exists>a b. a < b \<and> b < length (saved_blocks py soup) \<and>
       saved_blocks py soup ! a = i \<and> saved_blocks py soup ! b = i + k \<and>
       (find_previous soup i \<noteq> None \<longrightarrow>
          file_name py soup (i + k) b = file_name py soup i a) \<and>
       (find_previous soup i = None \<longrightarrow>
          file_name py soup i a
            = ustr ''src/test/resources/strava/example-'' @ str_of_nat (a + 1) @ ustr ''.json'' \<and>
          file_name py soup (i + k) b
            = ustr ''src/test/resources/strava/example-'' @ str_of_nat (b + 1) @ ustr ''.json'' \<and>
          file_name py soup (i + k) b \<noteq> file_name py soup i a) \<and>
       (a < length (new_writes w (snd (extract_soup py soup w))) \<longrightarrow>
          fst (new_writes w (snd (extract_soup py soup w)) ! a) = file_name py soup i a) \<and>
       (b < length (new_writes w (snd (extract_soup py soup w))) \<longrightarrow>
          fst (new_writes w (snd (extract_soup py soup w)) ! b) = file_name py soup (i + k) b) \<and>
       (fst (extract_soup py soup w) = Inr () \<longrightarrow>
          length (new_writes w (snd (extract_soup py soup w))) = length (saved_blocks py soup) \<and>
          new_writes w (snd (extract_soup py soup w)) ! a
            = (file_name py soup i a, json_dumps py (projr (json_loads py (block_text soup i)))) \<and>
          new_writes w (snd (extract_soup py soup w)) ! b
            = (file_name py soup (i + k) b,
               json_dumps py (projr (json_loads py (block_text soup i)))) \<and>
          last (stdout (snd (extract_soup py soup w)))
            = total_line (length (new_writes w (snd (extract_soup py soup w)))) \<and>
          (find_previous soup i \<noteq> None \<longrightarrow>
             card (fst ` set (new_writes w (snd (extract_soup py soup w))))
               < length (new_writes w (snd (extract_soup py soup w))))))"
proof -
  let ?D = "descendants soup"
  let ?sb = "saved_blocks py soup"
  let ?nw = "new_writes w (snd (extract_soup py soup w))"
  let ?names = "map (\<lambda>kb. file_name py soup (snd kb) (fst kb)) (enumerate 0 ?sb)"
  from subtree_nth [OF assms(1,5)] assms(6)
  have l: "i + k < length ?D" and c: "?D ! (i + k) = Element (ustr ''code'') classes' children'"
    by simp_all
  have m: "matches_selectors (?D ! i)" "matches_selectors (?D ! (i + k))"
    unfolding assms(2) c by (simp_all add: matches_selectors_def)
  have sj: "saved_block py soup (i + k)" using assms(8) by (simp add: saved_block_def assms(7))
  have mem: "i \<in> set ?sb" "i + k \<in> set ?sb"
    using assms(1,8) l m sj by (simp_all add: saved_blocks_def select_member)
  have "i < i + k" using assms(4) by simp
  from sorted_positions [OF saved_blocks_sorted mem this]
  obtain a b where ab: "a < b" "b < length ?sb" "?sb ! a = i" "?sb ! b = i + k" by blast
  have nh: "\<not> is_heading (?D ! j)" if "i \<le> j" "j < i + k" for j
  proof -
    from that have jk: "j - i < length (preorder (?D ! i))" using assms(5) by simp
    from subtree_nth [OF assms(1) jk] that have "?D ! j = preorder (?D ! i) ! (j - i)" by simp
    with assms(3) jk show ?thesis by (simp add: list_all_length)
  qed
  have h: "find_previous soup (i + k) = find_previous soup i"
    using l nh by (intro find_previous_skip) simp_all
  have same: "file_name py soup (i + k) b = file_name py soup i a"
    if "find_previous soup i \<noteq> None"
    using that by (auto simp: file_name_def h)
  have differ: "file_name py soup i a
            = ustr ''src/test/resources/strava/example-'' @ str_of_nat (a + 1) @ ustr ''.json'' \<and>
          file_name py soup (i + k) b
            = ustr ''src/test/resources/strava/example-'' @ str_of_nat (b + 1) @ ustr ''.json'' \<and>
          file_name py soup (i + k) b \<noteq> file_name py soup i a"
    if n: "find_previous soup i = None"
  proof -
    from n h have n': "find_previous soup (i + k) = None" by simp
    have "str_of_nat (b + 1) \<noteq> str_of_nat (a + 1)"
      using str_of_nat_inj [of "b + 1" "a + 1"] ab(1) by auto
    then show ?thesis
      by (simp add: file_name_example [OF n] file_name_example [OF n'])
  qed
  from extract_soup_paths [of w py soup] obtain mm where mm: "map fst ?nw = take mm ?names" by blast
  then have "length (map fst ?nw) = length (take mm ?names)" by simp
  then have len: "length ?nw = min mm (length ?sb)" by simp
  have path: "fst (?nw ! x) = file_name py soup (?sb ! x) x" if "x < length ?nw" for x
  proof -
    from that len have x: "x < mm" "x < length ?sb" by simp_all
    have "fst (?nw ! x) = map fst ?nw ! x" using that by simp
    also have "\<dots> = ?names ! x" unfolding mm using x by simp
    also have "\<dots> = file_name py soup (?sb ! x) x" using x by (simp add: nth_enumerate_eq)
    finally show ?thesis .
  qed
  have pa: "fst (?nw ! a) = file_name py soup i a" if "a < length ?nw"
    using path [OF that] ab by simp
  have pb: "fst (?nw ! b) = file_name py soup (i + k) b" if "b < length ?nw"
    using path [OF that] ab by simp
  have completed: "length ?nw = length ?sb \<and>
          ?nw ! a = (file_name py soup i a, json_dumps py (projr (json_loads py (block_text soup i)))) \<and>
          ?nw ! b = (file_name py soup (i + k) b,
               json_dumps py (projr (json_loads py (block_text soup i)))) \<and>
          last (stdout (snd (extract_soup py soup w))) = total_line (length ?nw) \<and>
          (find_previous soup i \<noteq> None \<longrightarrow> card (fst ` set ?nw) < length ?nw)"
    if ok: "fst (extract_soup py soup w) = Inr ()"
  proof -
    note nw = new_writes_extract_soup [OF ok]
    have 1: "length ?nw = length ?sb" by (simp add: nw)
    have 2: "?nw ! a = (file_name py soup i a, json_dumps py (projr (json_loads py (block_text soup i))))"
      using ab by (simp add: nw nth_enumerate_eq saved_file_def)
    have 3: "?nw ! b = (file_name py soup (i + k) b,
               json_dumps py (projr (json_loads py (block_text soup i))))"
      using ab by (simp add: nw nth_enumerate_eq saved_file_def assms(7))
    have 4: "last (stdout (snd (extract_soup py soup w))) = total_line (length ?nw)"
      unfolding 1 by (simp add: extract_soup_ok [OF ok])
    have 5: "card (fst ` set ?nw) < length ?nw" if hd: "find_previous soup i \<noteq> None"
    proof -
      have "map fst ?nw ! a = map fst ?nw ! b"
        using ab 1 2 3 same [OF hd] by simp
      moreover have "a < length (map fst ?nw)" "b < length (map fst ?nw)" "a \<noteq> b"
        using ab 1 by simp_all
      ultimately have "\<not> distinct (map fst ?nw)" by (auto simp: distinct_conv_nth)
      then have "card (set (map fst ?nw)) \<noteq> length (map fst ?nw)" using card_distinct by blast
      moreover have "card (set (map fst ?nw)) \<le> length (map fst ?nw)" by (rule card_length)
      ultimately show ?thesis by simp
    qed
    have five: "find_previous soup i \<noteq> None \<longrightarrow> card (fst ` set ?nw) < length ?nw"
      using 5 by (rule impI)
    show ?thesis by (intro conjI) (rule 1 2 3 4 five)+
  qed
  have S: "find_previous soup i \<noteq> None \<longrightarrow>
          file_name py soup (i + k) b = file_name py soup i a"
    using same by (rule impI)
  have F: "find_previous soup i = None \<longrightarrow>
          file_name py soup i a
            = ustr ''src/test/resources/strava/example-'' @ str_of_nat (a + 1) @ ustr ''.json'' \<and>
          file_name py soup (i + k) b
            = ustr ''src/test/resources/strava/example-'' @ str_of_nat (b + 1) @ ustr ''.json'' \<and>
          file_name py soup (i + k) b \<noteq> file_name py soup i a"
    using differ by (rule impI)
  have A: "a < length ?nw \<longrightarrow> fst (?nw ! a) = file_name py soup i a"
    using pa by (rule impI)
  have B: "b < length ?nw \<longrightarrow> fst (?nw ! b) = file_name py soup (i + k) b"
    using pb by (rule impI)
  have C: "fst (extract_soup py soup w) = Inr () \<longrightarrow>
          length ?nw = length ?sb \<and>
          ?nw ! a = (file_name py soup i a, json_dumps py (projr (json_loads py (block_text soup i)))) \<and>
          ?nw ! b = (file_name py soup (i + k) b,
               json_dumps py (projr (json_loads py (block_text soup i)))) \<and>
          last (stdout (snd (extract_soup py soup w))) = total_line (length ?nw) \<and>
          (find_previous soup i \<noteq> None \<longrightarrow> card (fst ` set ?nw) < length ?nw)"
    using completed by (rule impI)
  show ?thesis
    by (intro conjI exI) (rule c ab S F A B C)+
qed

lemma nested_blocks_saved:
  "saved_blocks py
      [Element (ustr ''h2'') [] [Text (ustr ''Get Activity'')],
       Element (ustr ''pre'') []
         [Text [10], Element (ustr ''code'') [] [Text (ustr ''[]'')], Text [10]]] = [2, 4] \<and>
   (\<forall>b \<in> set (select
      [Element (ustr ''h2'') [] [Text (ustr ''Get Activity'')],
       Element (ustr ''pre'') []
         [Text [10], Element (ustr ''code'') [] [Text (ustr ''[]'')], Text [10]]]).
      \<not> raising_block py
      [Element (ustr ''h2'') [] [Text (ustr ''Get Activity'')],
       Element (ustr ''pre'') []
         [Text [10], Element (ustr ''code'') [] [Text (ustr ''[]'')], Text [10]]] b)"
proof -
  let ?soup = "[Element (ustr ''h2'') [] [Text (ustr ''Get Activity'')],
       Element (ustr ''pre'') []
         [Text [10], Element (ustr ''code'') [] [Text (ustr ''[]'')], Text [10]]]"
  have s: "select ?soup = [2, 4]"
    by (simp add: select_def descendants_def matches_selectors_def ustr_def upt_rec_numeral)
  have t: "block_text ?soup 2 = ustr ''[]''" "block_text ?soup 4 = ustr ''[]''"
    by (simp_all add: text_defs)
  have l: "looks_like_json (ustr ''[]'')" by (simp add: looks_like_json_def ustr_def startswith_def)
  show ?thesis
    unfolding saved_blocks_def s by (simp add: saved_block_def raising_block_def t l loads_empty_list)
qed

theorem nested_code_saved_twice_witness:
  "descendants
      [Element (ustr ''h2'') [] [Text (ustr ''Get Activity'')],
       Element (ustr ''pre'') []
         [Text [10], Element (ustr ''code'') [] [Text (ustr ''[]'')], Text [10]]] ! 2
     = Element (ustr ''pre'') []
         [Text [10], Element (ustr ''code'') [] [Text (ustr ''[]'')], Text [10]] \<and>
   preorder (Element (ustr ''pre'') []
         [Text [10], Element (ustr ''code'') [] [Text (ustr ''[]'')], Text [10]]) ! 2
     = Element (ustr ''code'') [] [Text (ustr ''[]'')] \<and>
   saved_block py0
      [Element (ustr ''h2'') [] [Text (ustr ''Get Activity'')],
       Element (ustr ''pre'') []
         [Text [10], Element (ustr ''code'') [] [Text (ustr ''[]'')], Text [10]]] 2 \<and>
   extract_soup py0
      [Element (ustr ''h2'') [] [Text (ustr ''Get Activity'')],
       Element (ustr ''pre'') []
         [Text [10], Element (ustr ''code'') [] [Text (ustr ''[]'')], Text [10]]] no_output
     = (Inr (),
        \<lparr>writes = [(ustr ''src/test/resources/strava/get-activity.json'', ustr ''[]''),
                   (ustr ''src/test/resources/strava/get-activity.json'', ustr ''[]'')],
         stdout = [0x2713 # ustr '' Saved src/test/resources/strava/get-activity.json'',
                   0x2713 # ustr '' Saved src/test/resources/strava/get-activity.json'',
                   total_line 2]\<rparr>) \<and>
   card (fst ` set (new_writes no_output (snd (extract_soup py0
      [Element (ustr ''h2'') [] [Text (ustr ''Get Activity'')],
       Element (ustr ''pre'') []
         [Text [10], Element (ustr ''code'') [] [Text (ustr ''[]'')], Text [10]]] no_output)))) < 2"
proof -
  let ?pre = "Element (ustr ''pre'') []
         [Text [10], Element (ustr ''code'') [] [Text (ustr ''[]'')], Text [10]]"
  let ?soup = "[Element (ustr ''h2'') [] [Text (ustr ''Get Activity'')], ?pre]"
  let ?nw = "new_writes no_output (snd (extract_soup py0 ?soup no_output))"
  note sb = nested_blocks_saved [of py0, THEN conjunct1]
  have h1: "2 < length (descendants ?soup)" by (simp add: descendants_def)
  have h2: "descendants ?soup ! 2 = ?pre" by (simp add: descendants_def)
  have h3: "list_all (\<lambda>n. \<not> is_heading n) (preorder (descendants ?soup ! 2))"
    unfolding h2 by (simp add: is_heading_def ustr_def)
  have h5: "2 < length (preorder (descendants ?soup ! 2))" unfolding h2 by simp
  have h6: "preorder (descendants ?soup ! 2) ! 2 = Element (ustr ''code'') [] [Text (ustr ''[]'')]"
    unfolding h2 by simp
  have t: "block_text ?soup 2 = ustr ''[]''" "block_text ?soup (2 + 2) = ustr ''[]''"
    by (simp_all add: text_defs)
  have h7: "block_text ?soup (2 + 2) = block_text ?soup 2" by (simp only: t)
  have l: "looks_like_json (ustr ''[]'')" by (simp add: looks_like_json_def ustr_def startswith_def)
  have h8: "saved_block py0 ?soup 2" by (simp add: saved_block_def t l loads_empty_list)
  have pe: "find_previous ?soup 2 = Some (Element (ustr ''h2'') [] [Text (ustr ''Get Activity'')])"
    by (simp add: find_previous_def descendants_def is_heading_def ustr_def)
  then have p: "find_previous ?soup 2 \<noteq> None" by simp
  have ok: "fst (extract_soup py0 ?soup no_output) = Inr ()"
    by (simp add: extract_soup_run [OF reliable_py0 nested_blocks_saved [of py0, THEN conjunct2]])
  have f: "file_name py0 ?soup 2 0 = ustr ''src/test/resources/strava/get-activity.json''"
    unfolding file_name_def pe option.case get_text.simps list.map concat.simps append_Nil2
      clean_name_get_activity
    by (simp add: os_path_join_def OUT_DIR_def ustr_def startswith_def)
  have d: "json_dumps py0 (projr (json_loads py0 (block_text ?soup 2))) = ustr ''[]''"
    unfolding t loads_empty_list sum.sel dumps_empty_list ..
  have h4: "0 < (2::nat)" by simp
  from nested_code_saved_twice [OF h1 h2 h3 h4 h5 h6 h7 h8, of no_output, THEN conjunct2]
  obtain a b where ab: "a < b" "b < length (saved_blocks py0 ?soup)"
    "saved_blocks py0 ?soup ! a = 2"
    and same': "find_previous ?soup 2 \<noteq> None \<longrightarrow>
       file_name py0 ?soup (2 + 2) b = file_name py0 ?soup 2 a"
    and run': "fst (extract_soup py0 ?soup no_output) = Inr () \<longrightarrow>
       length ?nw = length (saved_blocks py0 ?soup) \<and>
       ?nw ! a = (file_name py0 ?soup 2 a, json_dumps py0 (projr (json_loads py0 (block_text ?soup 2)))) \<and>
       ?nw ! b = (file_name py0 ?soup (2 + 2) b, json_dumps py0 (projr (json_loads py0 (block_text ?soup 2)))) \<and>
       last (stdout (snd (extract_soup py0 ?soup no_output))) = total_line (length ?nw) \<and>
       (find_previous ?soup 2 \<noteq> None \<longrightarrow> card (fst ` set ?nw) < length ?nw)"
    by blast
  from same' p have same: "file_name py0 ?soup (2 + 2) b = file_name py0 ?soup 2 a" by blast
  from run' ok p have len: "length ?nw = length (saved_blocks py0 ?soup)"
    and wa: "?nw ! a = (file_name py0 ?soup 2 a, json_dumps py0 (projr (json_loads py0 (block_text ?soup 2))))"
    and wb: "?nw ! b = (file_name py0 ?soup (2 + 2) b, json_dumps py0 (projr (json_loads py0 (block_text ?soup 2))))"
    and cd: "card (fst ` set ?nw) < length ?nw"
    by blast+
  from ab have b1: "b = 1" and a0: "a = 0" unfolding sb by simp_all
  have fa: "file_name py0 ?soup 2 a = ustr ''src/test/resources/strava/get-activity.json''"
    unfolding a0 by (rule f)
  have l2: "length ?nw = 2" using len by (simp add: sb)
  have "?nw = [?nw ! 0, ?nw ! 1]"
    using l2 by (rule list_of_two)
  also have "?nw ! 0 = (ustr ''src/test/resources/strava/get-activity.json'', ustr ''[]'')"
    using wa [unfolded a0] unfolding f d .
  also have "?nw ! 1 = (ustr ''src/test/resources/strava/get-activity.json'', ustr ''[]'')"
    using wb [unfolded b1] unfolding same [unfolded a0 b1] f d .
  finally have nw: "?nw = [(ustr ''src/test/resources/strava/get-activity.json'', ustr ''[]''),
                   (ustr ''src/test/resources/strava/get-activity.json'', ustr ''[]'')]" .
  have f4: "file_name py0 ?soup 4 (Suc 0) = ustr ''src/test/resources/strava/get-activity.json''"
    using same [unfolded a0 b1] f by simp
  have t4: "block_text ?soup 4 = ustr ''[]''" by (simp add: text_defs)
  have sf0: "saved_file py0 ?soup (0, 2)
      = (ustr ''src/test/resources/strava/get-activity.json'', ustr ''[]'')"
    unfolding saved_file_def fst_conv snd_conv f d ..
  have sf1: "saved_file py0 ?soup (Suc 0, 4)
      = (ustr ''src/test/resources/strava/get-activity.json'', ustr ''[]'')"
    unfolding saved_file_def fst_conv snd_conv f4 t4 loads_empty_list sum.sel dumps_empty_list ..
  have run: "extract_soup py0 ?soup no_output
     = (Inr (),
        \<lparr>writes = [(ustr ''src/test/resources/strava/get-activity.json'', ustr ''[]''),
                   (ustr ''src/test/resources/strava/get-activity.json'', ustr ''[]'')],
         stdout = [0x2713 # ustr '' Saved src/test/resources/strava/get-activity.json'',
                   0x2713 # ustr '' Saved src/test/resources/strava/get-activity.json'',
                   total_line 2]\<rparr>)"
    unfolding extract_soup_run [OF reliable_py0 nested_blocks_saved [of py0, THEN conjunct2]] sb
    by (simp add: sf0 sf1 f f4 no_output_def) (simp add: ustr_def numeral_2_eq_2)
  from cd l2 have "card (fst ` set ?nw) < 2" by simp
  with h2 h6 [unfolded h2] h8 run show ?thesis by blast
qed

section \<open>Round trip of strings\<close>

lemma hex_val_hex_char: "d < 16 \<Longrightarrow> hex_val (hex_char d) = Some d"
  by (auto simp: hex_val_def hex_char_def)

lemma hex4_value:
  fixes n :: nat
  assumes "n < 65536"
  shows "((n div 4096 mod 16 * 16 + n div 256 mod 16) * 16 + n div 16 mod 16) * 16 + n mod 16 = n"
proof -
  have a: "n div 256 = n div 16 div 16" by (simp add: div_mult2_eq [symmetric])
  have b: "n div 4096 = n div 256 div 16" by (simp add: div_mult2_eq [symmetric])
  have c: "n div 4096 < 16" using assms by simp
  then have "n div 4096 mod 16 * 16 + n div 256 mod 16 = n div 256"
    unfolding b by (simp add: div_mult_mod_eq)
  moreover have "n div 256 * 16 + n div 16 mod 16 = n div 16"
    unfolding a by (simp add: div_mult_mod_eq)
  moreover have "n div 16 * 16 + n mod 16 = n" by (simp add: div_mult_mod_eq)
  ultimately show ?thesis by simp
qed


lemma decode_digits:
  "a < 16 \<Longrightarrow> b < 16 \<Longrightarrow> c < 16 \<Longrightarrow> d < 16 \<Longrightarrow>
   decode_uXXXX ([hex_char a, hex_char b, hex_char c, hex_char d] @ rest)
     = Some (((a * 16 + b) * 16 + c) * 16 + d)"
  by (simp add: decode_uXXXX_def hex_val_hex_char)

lemma decode_hex4: "n < 65536 \<Longrightarrow> decode_uXXXX (hex4 n @ rest) = Some n"
  unfolding hex4_def
  by (subst decode_digits) (simp_all only: hex4_value mod_less_divisor zero_less_numeral)

lemma length_hex4: "length (hex4 n) = 4"
  by (simp add: hex4_def)

lemma drop_hex4: "drop 4 (hex4 n @ rest) = rest"
  by (simp add: hex4_def)

text \<open>The escape of a code point that is no low surrogate does not read as one.\<close>

lemma low_surrogate_escape_quote: "low_surrogate_escape (34 # r) = None"
  by (simp add: low_surrogate_escape_def split: list.splits)

lemma low_surrogate_escape_escape:
  assumes "c < 0x110000" "\<not> is_low_surrogate c"
  shows "low_surrogate_escape (escape_char c @ rest) = None"
proof (cases "c < 0x10000")
  case True
  show ?thesis
  proof (cases "escape_char c = [92, ord CHR ''u''] @ hex4 c")
    case True
    with \<open>c < 0x10000\<close> assms(2) show ?thesis
      by (simp add: low_surrogate_escape_def decode_hex4)
  next
    case False
    then show ?thesis
      using \<open>c < 0x10000\<close>
      by (auto simp: escape_char_def low_surrogate_escape_def split: if_splits list.splits)
  qed
next
  case False
  let ?hi = "0xD800 + (c - 0x10000) div 1024 mod 1024"
  have hi: "?hi < 65536" "\<not> is_low_surrogate ?hi"
    using assms(1) False by (simp_all add: is_low_surrogate_def)
  have e: "escape_char c = 92 # ord CHR ''u'' # hex4 ?hi
      @ [92, ord CHR ''u''] @ hex4 (0xDC00 + (c - 0x10000) mod 1024)"
    using False by (simp add: escape_char_def)
  note dh = decode_hex4 [OF hi(1)]
  show ?thesis
    unfolding e using hi(2) by (simp add: low_surrogate_escape_def dh)
qed


lemma scanstring_escape_char:
  assumes "c < 0x110000" and "is_high_surrogate c \<Longrightarrow> low_surrogate_escape rest = None"
  shows "scanstring (escape_char c @ rest) = cons_chunk c (scanstring rest)"
proof (cases "c < 0x10000")
  case True
  show ?thesis
  proof (cases "escape_char c = [92, ord CHR ''u''] @ hex4 c")
    case True
    note dh = decode_hex4 [OF \<open>c < 0x10000\<close>]
    show ?thesis
      unfolding True using assms(2)
      by (cases "is_high_surrogate c") (simp_all add: dh length_hex4)
  next
    case False
    then show ?thesis
      using \<open>c < 0x10000\<close>
      by (auto simp: escape_char_def backslash_def split: if_splits)
  qed
next
  case False
  let ?hi = "0xD800 + (c - 0x10000) div 1024 mod 1024"
  let ?lo = "0xDC00 + (c - 0x10000) mod 1024"
  have hi: "?hi < 65536" "is_high_surrogate ?hi"
    using assms(1) False by (simp_all add: is_high_surrogate_def)
  have lo: "?lo < 65536" "is_low_surrogate ?lo"
    by (simp_all add: is_low_surrogate_def)
  have small: "(c - 0x10000) div 1024 < 1024" using assms(1) by simp
  have val: "0x10000 + (?hi - 0xD800) * 1024 + (?lo - 0xDC00) = c"
    using False small by (simp add: div_mult_mod_eq)
  have e: "escape_char c = 92 # ord CHR ''u'' # hex4 ?hi @ 92 # ord CHR ''u'' # hex4 ?lo"
    using False by (simp add: escape_char_def)
  have d1: "decode_uXXXX (hex4 ?hi @ 92 # ord CHR ''u'' # hex4 ?lo @ rest) = Some ?hi"
    by (rule decode_hex4 [OF hi(1)])
  have d2: "low_surrogate_escape (drop 4 (hex4 ?hi @ 92 # ord CHR ''u'' # hex4 ?lo @ rest)) = Some ?lo"
    unfolding drop_hex4 using lo(2) by (simp add: low_surrogate_escape_def decode_hex4 [OF lo(1)])
  have d3: "drop 10 (hex4 ?hi @ 92 # ord CHR ''u'' # hex4 ?lo @ rest) = rest"
    by (simp add: hex4_def)
  have "scanstring (92 # ord CHR ''u'' # hex4 ?hi @ 92 # ord CHR ''u'' # hex4 ?lo @ rest)
      = cons_chunk (0x10000 + (?hi - 0xD800) * 1024 + (?lo - 0xDC00)) (scanstring rest)"
    unfolding scanstring.simps using hi(2) by (simp only: d1 d2 d3 list.case option.case if_True)
      simp
  then show ?thesis unfolding e val by simp
qed


lemma scanstring_escape:
  "valid_str s \<Longrightarrow> split_pair_free s \<Longrightarrow>
   scanstring (concat (map escape_char s) @ 34 # r) = Inr (s, r)"
proof (induction s)
  case Nil
  show ?case by simp
next
  case (Cons c cs)
  let ?rest = "concat (map escape_char cs) @ 34 # r"
  from Cons.prems have c: "c < 0x110000" and v: "valid_str cs"
    by (simp_all add: valid_str_def)
  from Cons.prems(2) have f: "split_pair_free cs" by (cases cs) simp_all
  have l: "low_surrogate_escape ?rest = None" if "is_high_surrogate c"
  proof (cases cs)
    case Nil
    then show ?thesis by (simp add: low_surrogate_escape_quote)
  next
    case (Cons b bs)
    with Cons.prems(2) that have "\<not> is_low_surrogate b" by simp
    moreover from v Cons have "b < 0x110000" by (simp add: valid_str_def)
    ultimately show ?thesis
      unfolding Cons using low_surrogate_escape_escape [of b "concat (map escape_char bs) @ 34 # r"]
      by simp
  qed
  have "scanstring (escape_char c @ ?rest) = cons_chunk c (scanstring ?rest)"
    using c l by (rule scanstring_escape_char)
  also have "\<dots> = Inr (c # cs, r)"
    using Cons.IH [OF v f] by (simp add: cons_chunk_def)
  finally show ?case by simp
qed

lemma scanstring_encoded:
  "valid_str s \<Longrightarrow> split_pair_free s \<Longrightarrow>
   encode_basestring_ascii s @ r = 34 # concat (map escape_char s) @ 34 # r \<and>
   scanstring (concat (map escape_char s) @ 34 # r) = Inr (s, r)"
  by (simp add: encode_basestring_ascii_def scanstring_escape)

section \<open>Round trip of numbers\<close>

lemma takeWhile_append_stop:
  "(case r of [] \<Rightarrow> True | c # _ \<Rightarrow> \<not> P c) \<Longrightarrow>
   takeWhile P (xs @ r) = takeWhile P xs \<and> dropWhile P (xs @ r) = dropWhile P xs @ r"
  by (induction xs) (auto split: list.splits)

lemma number_end_digit: "number_end r \<Longrightarrow> (case r of [] \<Rightarrow> True | c # _ \<Rightarrow> \<not> is_digit c)"
  by (auto simp: number_end_def split: list.splits)

lemma match_int_append:
  "match_int s = Some (i, r1) \<Longrightarrow> (case r of [] \<Rightarrow> True | c # _ \<Rightarrow> \<not> is_digit c) \<Longrightarrow>
   match_int (s @ r) = Some (i, r1 @ r)"
  by (cases s) (auto simp: match_int_def takeWhile_append_stop split: if_splits)

lemma match_digits1_append:
  assumes "match_digits1 whole pre s = (x, r1)" "number_end r"
  shows "match_digits1 (whole @ r) pre (s @ r) = (x, r1 @ r)"
proof (cases s)
  case Nil
  with assms show ?thesis
    by (auto simp: match_digits1_def number_end_def split: list.splits)
next
  case (Cons d ds)
  with assms number_end_digit [OF assms(2)] show ?thesis
    by (auto simp: match_digits1_def takeWhile_append_stop split: if_splits)
qed

lemma match_frac_append:
  assumes "match_frac s = (f, r1)" "number_end r"
  shows "match_frac (s @ r) = (f, r1 @ r)"
proof (cases s)
  case Nil
  with assms show ?thesis
    by (auto simp: match_frac_def number_end_def split: list.splits)
next
  case (Cons p t)
  show ?thesis
  proof (cases t)
    case Nil
    with Cons assms show ?thesis
      by (auto simp: match_frac_def number_end_def split: list.splits)
  next
    case (Cons d ds)
    with \<open>s = p # t\<close> assms number_end_digit [OF assms(2)] show ?thesis
      by (auto simp: match_frac_def takeWhile_append_stop split: if_splits)
  qed
qed

lemma match_exp_append:
  assumes "match_exp s = (e, r1)" "number_end r"
  shows "match_exp (s @ r) = (e, r1 @ r)"
proof (cases s)
  case Nil
  with assms show ?thesis
    by (auto simp: match_exp_def number_end_def split: list.splits)
next
  case (Cons c t)
  show ?thesis
  proof (cases "c = ord CHR ''e'' \<or> c = ord CHR ''E''")
    case False
    with Cons assms show ?thesis by (auto simp: match_exp_def)
  next
    case True
    show ?thesis
    proof (cases t)
      case Nil
      with Cons True assms show ?thesis
        by (auto simp: match_exp_def match_digits1_def number_end_def split: list.splits)
    next
      case (Cons sg t')
      show ?thesis
      proof (cases "sg = ord CHR ''-'' \<or> sg = ord CHR ''+''")
        case True
        with \<open>s = c # t\<close> Cons \<open>c = ord CHR ''e'' \<or> c = ord CHR ''E''\<close> assms(1)
        have "match_digits1 s [c, sg] t' = (e, r1)" by (auto simp: match_exp_def)
        from match_digits1_append [OF this assms(2)]
        show ?thesis
          using \<open>s = c # t\<close> Cons \<open>c = ord CHR ''e'' \<or> c = ord CHR ''E''\<close> True
          by (auto simp: match_exp_def)
      next
        case False
        with \<open>s = c # t\<close> Cons \<open>c = ord CHR ''e'' \<or> c = ord CHR ''E''\<close> assms(1)
        have "match_digits1 s [c] t = (e, r1)" by (auto simp: match_exp_def)
        from match_digits1_append [OF this assms(2)]
        show ?thesis
          using \<open>s = c # t\<close> Cons \<open>c = ord CHR ''e'' \<or> c = ord CHR ''E''\<close> False
          by (auto simp: match_exp_def)
      qed
    qed
  qed
qed


lemma match_number_append:
  assumes "match_number s = Some (i, f, e, r3)" "number_end r"
  shows "match_number (s @ r) = Some (i, f, e, r3 @ r)"
proof -
  note d = number_end_digit [OF assms(2)]
  from assms(1) obtain c cs where s: "s = c # cs"
    by (cases s) (auto simp: match_number_def)
  show ?thesis
  proof (cases "c = ord CHR ''-''")
    case True
    with assms(1) s obtain i' r1 where m: "match_int cs = Some (i', r1)" and i: "i = c # i'"
      by (auto simp: match_number_def split: option.splits prod.splits)
    from assms(1) s True m i obtain r2 where mf: "match_frac r1 = (f, r2)" and me: "match_exp r2 = (e, r3)"
      by (auto simp: match_number_def split: prod.splits)
    show ?thesis
      using True s i match_int_append [OF m d] match_frac_append [OF mf assms(2)]
        match_exp_append [OF me assms(2)]
      by (simp add: match_number_def)
  next
    case False
    with assms(1) s obtain r1 where m: "match_int s = Some (i, r1)"
      by (auto simp: match_number_def split: option.splits prod.splits)
    from assms(1) s False m obtain r2 where mf: "match_frac r1 = (f, r2)" and me: "match_exp r2 = (e, r3)"
      by (auto simp: match_number_def split: prod.splits)
    show ?thesis
      using False s match_int_append [OF m d] match_frac_append [OF mf assms(2)]
        match_exp_append [OF me assms(2)]
      by (simp add: match_number_def)
  qed
qed

lemma match_int_parts: "match_int s = Some (i, r) \<Longrightarrow> s = i @ r"
  by (cases s) (auto simp: match_int_def split: if_splits)

lemma match_digits1_parts: "match_digits1 whole pre s = (x, r) \<Longrightarrow> whole = pre @ s \<Longrightarrow> whole = x @ r"
  by (cases s) (auto simp: match_digits1_def split: if_splits)

lemma match_frac_parts: "match_frac s = (f, r) \<Longrightarrow> s = f @ r"
  by (auto simp: match_frac_def split: list.splits if_splits)

lemma match_exp_parts: "match_exp s = (e, r) \<Longrightarrow> s = e @ r"
  by (auto simp: match_exp_def split: list.splits if_splits dest: match_digits1_parts)

lemma match_number_parts: "match_number s = Some (i, f, e, r) \<Longrightarrow> s = i @ f @ e @ r"
  by (auto simp: match_number_def split: list.splits if_splits option.splits prod.splits
      dest!: match_int_parts match_frac_parts match_exp_parts)

lemma match_number_first:
  "match_number s = Some (i, f, e, r) \<Longrightarrow> \<exists>c cs. s = c # cs \<and> (c = ord CHR ''-'' \<or> is_digit c)"
  by (cases s) (auto simp: match_number_def match_int_def is_digit_def split: if_splits option.splits)


lemma str_of_nat_leading: "hd (str_of_nat n) = ord CHR ''0'' \<Longrightarrow> n = 0"
proof (induction n rule: str_of_nat.induct)
  case (1 n)
  show ?case
  proof (cases "n < 10")
    case True
    with "1.prems" show ?thesis by (subst (asm) str_of_nat.simps) simp
  next
    case False
    have ne: "str_of_nat (n div 10) \<noteq> []" using str_of_nat_digits by blast
    from False "1.prems" have "hd (str_of_nat (n div 10) @ [ord CHR ''0'' + n mod 10]) = ord CHR ''0''"
      by (subst (asm) str_of_nat.simps) simp
    with ne have "hd (str_of_nat (n div 10)) = ord CHR ''0''" by simp
    with False "1.IH" have "n div 10 = 0" by simp
    with False show ?thesis by simp
  qed
qed

lemma str_of_nat_0: "str_of_nat 0 = [ord CHR ''0'']"
  by (subst str_of_nat.simps) simp

lemma match_int_str_of_nat: "match_int (str_of_nat n) = Some (str_of_nat n, [])"
proof (cases "n = 0")
  case True
  then show ?thesis by (simp add: str_of_nat_0 match_int_def)
next
  case False
  from str_of_nat_digits [of n] obtain d ds where s: "str_of_nat n = d # ds"
    and d: "is_digit d" "list_all is_digit ds"
    by (cases "str_of_nat n") auto
  from False s str_of_nat_leading [of n] have "d \<noteq> ord CHR ''0''" by auto
  moreover from d(2) have "takeWhile is_digit ds = ds" "dropWhile is_digit ds = []"
    by (simp_all add: list_all_iff)
  ultimately show ?thesis using d(1) by (simp add: s match_int_def)
qed

lemma match_number_str_of_int: "match_number (str_of_int i) = Some (str_of_int i, [], [], [])"
proof (cases "i < 0")
  case True
  then show ?thesis
    by (simp add: str_of_int_def match_number_def match_int_str_of_nat match_frac_def match_exp_def)
next
  case False
  from str_of_nat_digits [of "nat i"] obtain d ds where s: "str_of_nat (nat i) = d # ds"
    and d: "is_digit d"
    by (cases "str_of_nat (nat i)") auto
  from d have "d \<noteq> ord CHR ''-''" by (auto simp: is_digit_def)
  with False show ?thesis
    using match_int_str_of_nat [of "nat i"]
    by (simp add: str_of_int_def match_number_def s match_frac_def match_exp_def)
qed

lemma int_value_str_of_int: "int_value (str_of_int i) = i"
proof (cases "i < 0")
  case True
  then show ?thesis by (simp add: str_of_int_def int_value_def nat_of_str_str_of_nat)
next
  case False
  from str_of_nat_digits [of "nat i"] obtain d ds where s: "str_of_nat (nat i) = d # ds"
    and d: "is_digit d"
    by (cases "str_of_nat (nat i)") auto
  from d have "d \<noteq> ord CHR ''-''" by (auto simp: is_digit_def)
  with False show ?thesis
    using nat_of_str_str_of_nat [of "nat i"] by (simp add: str_of_int_def int_value_def s)
qed

section \<open>Round trip of the atoms\<close>

lemma scan_once_number:
  assumes "match_number s = Some (i, f, e, r)"
  shows "scan_once py d (Suc n) s =
    (if f \<noteq> [] \<or> e \<noteq> [] then Inr (JFloat (float_of_str py (i @ f @ e)), r)
     else (case int_of_str py i of Inl err \<Rightarrow> Inl err | Inr v \<Rightarrow> Inr (JInt v, r)))"
proof -
  from match_number_first [OF assms] obtain c cs where s: "s = c # cs"
    and c: "c = ord CHR ''-'' \<or> is_digit c" by blast
  from c have "c \<noteq> 34" "c \<noteq> ord CHR ''{''" "c \<noteq> ord CHR ''[''" "c \<noteq> ord CHR ''n''"
    "c \<noteq> ord CHR ''t''" "c \<noteq> ord CHR ''f''"
    by (auto simp: is_digit_def)
  then show ?thesis
    using assms unfolding s by (simp add: startswith_def ustr_def)
qed

lemma int_of_str_fits: "int_fits py i \<Longrightarrow> int_of_str py (str_of_int i) = Inr i"
  by (auto simp: int_fits_def int_of_str_def Let_def int_value_str_of_int split: if_splits)

lemma scan_once_int:
  "int_fits py i \<Longrightarrow> number_end r \<Longrightarrow> scan_once py d (Suc n) (str_of_int i @ r) = Inr (JInt i, r)"
  using scan_once_number [OF match_number_append [OF match_number_str_of_int], of r py d n i]
  by (simp add: int_of_str_fits)

lemma scan_once_null: "scan_once py d (Suc n) (ustr ''null'' @ r) = Inr (JNull, r)"
  by (simp add: startswith_def ustr_def)

lemma scan_once_true: "scan_once py d (Suc n) (ustr ''true'' @ r) = Inr (JBool True, r)"
  by (simp add: startswith_def ustr_def)

lemma scan_once_false: "scan_once py d (Suc n) (ustr ''false'' @ r) = Inr (JBool False, r)"
  by (simp add: startswith_def ustr_def)

lemma scan_once_NaN:
  "scan_once py d (Suc n) (ustr ''NaN'' @ r) = Inr (JFloat (float_of_str py (ustr ''nan'')), r)"
  by (simp add: startswith_def ustr_def match_number_def match_int_def is_digit_def)

lemma scan_once_Infinity:
  "scan_once py d (Suc n) (ustr ''Infinity'' @ r) = Inr (JFloat (float_of_str py (ustr ''inf'')), r)"
  by (simp add: startswith_def ustr_def match_number_def match_int_def is_digit_def)

lemma scan_once_neg_Infinity:
  "scan_once py d (Suc n) (ustr ''-Infinity'' @ r) = Inr (JFloat (float_of_str py (ustr ''-inf'')), r)"
  by (simp add: startswith_def ustr_def match_number_def match_int_def is_digit_def)

lemma scan_once_float:
  assumes "float_contract py" "number_end r"
  shows "scan_once py d (Suc n) (floatstr py x @ r) = Inr (JFloat x, r)"
proof -
  consider (nan) "x = float_of_str py (ustr ''nan'')"
    | (inf) "x \<noteq> float_of_str py (ustr ''nan'')" "x = float_of_str py (ustr ''inf'')"
    | (neg) "x \<noteq> float_of_str py (ustr ''nan'')" "x \<noteq> float_of_str py (ustr ''inf'')"
        "x = float_of_str py (ustr ''-inf'')"
    | (finite) "x \<noteq> float_of_str py (ustr ''nan'')" "x \<noteq> float_of_str py (ustr ''inf'')"
        "x \<noteq> float_of_str py (ustr ''-inf'')"
    by blast
  then show ?thesis
  proof cases
    case nan
    have "floatstr py x = ustr ''NaN''" using nan by (simp add: floatstr_def)
    then show ?thesis using nan by (simp only: scan_once_NaN)
  next
    case inf
    have "floatstr py x = ustr ''Infinity''" using inf by (simp add: floatstr_def)
    then show ?thesis using inf by (simp only: scan_once_Infinity)
  next
    case neg
    have "floatstr py x = ustr ''-Infinity''" using neg by (simp add: floatstr_def)
    then show ?thesis using neg by (simp only: scan_once_neg_Infinity)
  next
    case finite
    have fs: "floatstr py x = float_repr py x" using finite by (simp add: floatstr_def)
    from assms(1) finite have lit: "float_literal (float_repr py x)"
      and rt: "float_of_str py (float_repr py x) = x"
      unfolding float_contract_def by blast+
    from lit obtain i f e where m: "match_number (float_repr py x) = Some (i, f, e, [])"
      and fe: "f \<noteq> [] \<or> e \<noteq> []"
      by (auto simp: float_literal_def split: option.splits)
    from match_number_parts [OF m] have p: "i @ f @ e = float_repr py x" by simp
    from match_number_append [OF m assms(2)]
    have m': "match_number (float_repr py x @ r) = Some (i, f, e, r)" by simp
    have "scan_once py d (Suc n) (float_repr py x @ r) = Inr (JFloat (float_of_str py (i @ f @ e)), r)"
      unfolding scan_once_number [OF m'] using fe by simp
    then show ?thesis unfolding p rt fs .
  qed
qed

lemma scan_once_str:
  assumes "valid_str s" "split_pair_free s"
  shows "scan_once py d (Suc n) (encode_basestring_ascii s @ r) = Inr (JStr s, r)"
proof -
  have e: "encode_basestring_ascii s @ r = 34 # (concat (map escape_char s) @ 34 # r)"
    by (simp add: encode_basestring_ascii_def)
  show ?thesis
    unfolding e scan_once.simps list.case using scanstring_escape [OF assms, of r]
    by (simp only: simp_thms if_True sum.case prod.case)
qed

end
